theory Spec2Isabelle
  imports Main "HOL-Library.Word" "HOL-Library.Signed_Division"
begin

section \<open>Data model of \<^verbatim>\<open>datetime_strings.c\<close>\<close>

text \<open>
  The units of \<^verbatim>\<open>NPY_DATETIMEUNIT\<close>. The parameter value \<^verbatim>\<open>-1\<close> ("unit unknown",
  "auto-detect") is \<open>None\<close> of \<open>NPY_DATETIMEUNIT option\<close>.
\<close>

datatype NPY_DATETIMEUNIT =
    NPY_FR_Y | NPY_FR_M | NPY_FR_W | NPY_FR_D
  | NPY_FR_h | NPY_FR_m | NPY_FR_s | NPY_FR_ms | NPY_FR_us
  | NPY_FR_ns | NPY_FR_ps | NPY_FR_fs | NPY_FR_as
  | NPY_FR_GENERIC

text \<open>
  Modelled from the spec: the numeric values of the enumeration are declared in a header
  that is not part of the source file. The specification orders the units
  Generic < Year < Month < Week < Day < Hour < Minute < Second < Millisecond <
  Microsecond < Nanosecond < Picosecond < Femtosecond < Attosecond. Every comparison the
  code makes on a unit happens after the generic unit has been dealt with, so the place
  of \<open>NPY_FR_GENERIC\<close> in the order never decides a branch.
\<close>

fun unit_rank :: "NPY_DATETIMEUNIT \<Rightarrow> int" where
  "unit_rank NPY_FR_GENERIC = 0"
| "unit_rank NPY_FR_Y = 1"
| "unit_rank NPY_FR_M = 2"
| "unit_rank NPY_FR_W = 3"
| "unit_rank NPY_FR_D = 4"
| "unit_rank NPY_FR_h = 5"
| "unit_rank NPY_FR_m = 6"
| "unit_rank NPY_FR_s = 7"
| "unit_rank NPY_FR_ms = 8"
| "unit_rank NPY_FR_us = 9"
| "unit_rank NPY_FR_ns = 10"
| "unit_rank NPY_FR_ps = 11"
| "unit_rank NPY_FR_fs = 12"
| "unit_rank NPY_FR_as = 13"

text \<open>The casting rule is an opaque token handed to the casting predicate.\<close>

datatype NPY_CASTING =
    NPY_NO_CASTING | NPY_EQUIV_CASTING | NPY_SAFE_CASTING
  | NPY_SAME_KIND_CASTING | NPY_UNSAFE_CASTING

text \<open>
  \<^verbatim>\<open>npy_datetimestruct\<close>: the year is a 64-bit signed integer (it is printed with
  \<^verbatim>\<open>NPY_INT64_FMT\<close> and sized as "64-bit year"); it is a \<open>64 word\<close> read with \<open>sint\<close>,
  so the parser's accumulation wraps. The other fields only ever receive values of at
  most six decimal digits in this file and are read digit by digit, so they are \<open>int\<close>.
\<close>

record npy_datetimestruct =
  dts_year :: "64 word"
  dts_month :: int
  dts_day :: int
  dts_hour :: int
  dts_min :: int
  dts_sec :: int
  dts_us :: int
  dts_ps :: int
  dts_as :: int

text \<open>\<^verbatim>\<open>struct tm\<close> of the C library, with the fields the code touches.\<close>

record tm =
  tm_sec :: int
  tm_min :: int
  tm_hour :: int
  tm_mday :: int
  tm_mon :: int
  tm_year :: int
  tm_isdst :: int

text \<open>
  Everything the two functions use but do not define: the constants of the headers, the
  calendar helpers of \<^verbatim>\<open>datetime.c\<close>, the casting predicate, and the host's clock and
  time-zone services. They are parameters of the model. A C function that reports
  failure through its return value returns an \<open>option\<close>; \<^verbatim>\<open>mktime\<close> keeps its \<^verbatim>\<open>-1\<close>.
\<close>

record env =
  NPY_DATETIME_NAT :: "64 word"
  NPY_DATETIME_MAX_ISO8601_STRLEN :: int
  is_leapyear :: "64 word \<Rightarrow> bool"
  days_per_month_table :: "bool \<Rightarrow> int \<Rightarrow> int"
  can_cast_datetime64_units :: "NPY_DATETIMEUNIT \<Rightarrow> NPY_DATETIMEUNIT \<Rightarrow> NPY_CASTING \<Rightarrow> bool"
  time_now :: int
  localtime_r :: "int \<Rightarrow> tm option"
  gmtime_r :: "int \<Rightarrow> tm option"
  mktime :: "tm \<Rightarrow> int"
  convert_datetime_to_datetimestruct :: "int \<Rightarrow> npy_datetimestruct option"
  get_datetimestruct_days :: "npy_datetimestruct \<Rightarrow> int"
  add_minutes_to_datetimestruct :: "npy_datetimestruct \<Rightarrow> int \<Rightarrow> npy_datetimestruct"

text \<open>
  The failures of both functions. The C code returns \<^verbatim>\<open>-1\<close> after setting a Python
  exception; each constructor stands for one message. \<open>ParseError\<close> carries the
  position \<^verbatim>\<open>substr - str\<close> of the message.
\<close>

datatype error =
    GenericUnitsError
  | TodayUnitsError
  | LocaltimeError
  | MktimeError
  | GmtimeError
  | ConvertError
  | CastingError
  | ParseError nat
  | MonthOutOfRange
  | DayOutOfRange
  | HoursOutOfRange
  | MinutesOutOfRange
  | SecondsOutOfRange
  | TzHoursOutOfRange
  | TzMinutesOutOfRange
  | StringTooShort

subsection \<open>C characters and the \<^verbatim>\<open>char\<close> counter\<close>

text \<open>
  Both functions keep the remaining length in a variable declared \<^verbatim>\<open>char\<close>
  (\<^verbatim>\<open>char *substr, sublen;\<close>). \<open>to_char\<close> is the conversion of an \<^verbatim>\<open>int\<close> to a signed
  8-bit \<^verbatim>\<open>char\<close> (two's complement wrap-around, as on x86).
\<close>

definition to_char :: "int \<Rightarrow> int" where
  "to_char n = (n + 128) mod 256 - 128"

text \<open>\<^verbatim>\<open>isspace\<close>, \<^verbatim>\<open>isdigit\<close> and \<^verbatim>\<open>tolower\<close> of the C locale.\<close>

definition isspace :: "char \<Rightarrow> bool" where
  "isspace c = (c = CHR '' '' \<or> (9 \<le> (of_char c :: nat) \<and> (of_char c :: nat) \<le> 13))"

definition isdigit :: "char \<Rightarrow> bool" where
  "isdigit c = (48 \<le> (of_char c :: nat) \<and> (of_char c :: nat) \<le> 57)"

definition tolower :: "char \<Rightarrow> char" where
  "tolower c = (if 65 \<le> (of_char c :: nat) \<and> (of_char c :: nat) \<le> 90
                then char_of ((of_char c :: nat) + 32) else c)"

text \<open>\<^verbatim>\<open>c - '0'\<close>.\<close>

definition digit_val :: "char \<Rightarrow> int" where
  "digit_val c = int (of_char c) - 48"

section \<open>The length calculator\<close>

text \<open>
  The \<^verbatim>\<open>switch\<close> of \<^verbatim>\<open>get_datetime_iso_8601_strlen\<close> falls through: control enters at
  the label of the unit and adds every increment below it. \<open>strlen_cases\<close> lists the
  labels with their increments in source order; \<open>switch_len\<close> adds the increments from
  the first group that holds the unit.
\<close>

definition strlen_cases :: "(NPY_DATETIMEUNIT list \<times> int) list" where
  "strlen_cases =
    [([NPY_FR_as], 3), ([NPY_FR_fs], 3), ([NPY_FR_ps], 3), ([NPY_FR_ns], 3),
     ([NPY_FR_us], 3), ([NPY_FR_ms], 4), ([NPY_FR_s], 3), ([NPY_FR_m], 3),
     ([NPY_FR_h], 3), ([NPY_FR_D, NPY_FR_W], 3), ([NPY_FR_M], 3), ([NPY_FR_Y], 21)]"

definition switch_len :: "NPY_DATETIMEUNIT \<Rightarrow> int" where
  "switch_len base =
     sum_list (map snd (dropWhile (\<lambda>(labels, inc). base \<notin> set labels) strlen_cases))"

definition get_datetime_iso_8601_strlen :: "env \<Rightarrow> bool \<Rightarrow> NPY_DATETIMEUNIT option \<Rightarrow> int" where
  "get_datetime_iso_8601_strlen E local base =
     (case base of
        None \<Rightarrow> NPY_DATETIME_MAX_ISO8601_STRLEN E
      | Some b \<Rightarrow>
          if b = NPY_FR_GENERIC then 4
          else
            (let len = switch_len b;
                 len = (if unit_rank b \<ge> unit_rank NPY_FR_h
                        then (if local then len + 5 else len + 1) else len)
             in len + 1))"

section \<open>The formatter\<close>

subsection \<open>\<^verbatim>\<open>snprintf\<close> with the format \<^verbatim>\<open>"%04lld"\<close>\<close>

fun dec :: "nat \<Rightarrow> string" where
  "dec n = (if n < 10 then [char_of (48 + n)]
            else dec (n div 10) @ [char_of (48 + n mod 10)])"

declare dec.simps [simp del]

definition zero_pad :: "nat \<Rightarrow> string \<Rightarrow> string" where
  "zero_pad w s = replicate (w - length s) (CHR ''0'') @ s"

text \<open>
  A signed decimal of minimum width 4, padded with zeros after the sign:
  \<^verbatim>\<open>2016\<close>, \<^verbatim>\<open>0042\<close>, \<^verbatim>\<open>-100\<close>, \<^verbatim>\<open>-005\<close>.
\<close>

definition fmt_04lld :: "64 word \<Rightarrow> string" where
  "fmt_04lld y =
     (if sint y < 0 then CHR ''-'' # zero_pad 3 (dec (nat (- sint y)))
      else zero_pad 4 (dec (nat (sint y))))"

fun write_at :: "string \<Rightarrow> nat \<Rightarrow> string \<Rightarrow> string" where
  "write_at buf p [] = buf"
| "write_at buf p (c # cs) = write_at (buf[p := c]) (Suc p) cs"

text \<open>
  \<^verbatim>\<open>snprintf(substr, sublen, "%04lld", year)\<close>: writes at most \<open>sz - 1\<close> characters and
  a terminator, and returns the length of the whole text. The \<^verbatim>\<open>char\<close> counter is
  converted to \<^verbatim>\<open>size_t\<close>, so a negative one is a huge size.
\<close>

definition snprintf_04lld :: "string \<Rightarrow> nat \<Rightarrow> int \<Rightarrow> 64 word \<Rightarrow> string \<times> int" where
  "snprintf_04lld buf p sz y =
     (let txt = fmt_04lld y;
          n = (if sz < 0 then length txt else min (length txt) (nat sz - 1))
      in (if sz = 0 then buf else write_at buf p (take n txt @ [CHR 0x00]),
          int (length txt)))"

subsection \<open>Writing into the output buffer\<close>

text \<open>
  \<open>f_buf\<close> is the caller's buffer \<^verbatim>\<open>outstr\<close>, \<open>f_pos\<close> the offset \<^verbatim>\<open>substr - outstr\<close>,
  \<open>f_sublen\<close> the \<^verbatim>\<open>char\<close> counter.
\<close>

record fmt_state =
  f_buf :: string
  f_pos :: nat
  f_sublen :: int

text \<open>
  One block of the formatter, for the characters \<open>cs\<close>:
  \<^verbatim>\<open>substr[k] = c; if (sublen <= k+1) goto string_too_short;\<close> for each character, then
  \<^verbatim>\<open>substr += n; sublen -= n;\<close>. \<open>Inl\<close> is the jump to \<^verbatim>\<open>string_too_short\<close> with the buffer
  as written so far.
\<close>

fun emit_from :: "nat \<Rightarrow> string \<Rightarrow> fmt_state \<Rightarrow> string + fmt_state" where
  "emit_from k [] st =
     Inr (st\<lparr>f_pos := f_pos st + k, f_sublen := to_char (f_sublen st - int k)\<rparr>)"
| "emit_from k (c # cs) st =
     (let st' = st\<lparr>f_buf := (f_buf st)[f_pos st + k := c]\<rparr>
      in if f_sublen st \<le> int k + 1 then Inl (f_buf st') else emit_from (Suc k) cs st')"

definition emit :: "string \<Rightarrow> fmt_state \<Rightarrow> string + fmt_state" where
  "emit cs st = emit_from 0 cs st"

text \<open>\<^verbatim>\<open>(char)(x + '0')\<close>\<close>

definition dig :: "int \<Rightarrow> char" where
  "dig x = char_of (x + 48)"

text \<open>
  The field blocks MONTH to ATTOSECOND in source order, each with the unit whose
  "stop if the unit is ..." test follows it. \<^verbatim>\<open>/\<close> and \<^verbatim>\<open>%\<close> truncate towards zero.
\<close>

definition field_groups :: "npy_datetimestruct \<Rightarrow> (NPY_DATETIMEUNIT \<times> string) list" where
  "field_groups d =
    [(NPY_FR_M, [CHR ''-'', dig (dts_month d sdiv 10), dig (dts_month d smod 10)]),
     (NPY_FR_D, [CHR ''-'', dig (dts_day d sdiv 10), dig (dts_day d smod 10)]),
     (NPY_FR_h, [CHR ''T'', dig (dts_hour d sdiv 10), dig (dts_hour d smod 10)]),
     (NPY_FR_m, [CHR '':'', dig (dts_min d sdiv 10), dig (dts_min d smod 10)]),
     (NPY_FR_s, [CHR '':'', dig (dts_sec d sdiv 10), dig (dts_sec d smod 10)]),
     (NPY_FR_ms, [CHR ''.'', dig ((dts_us d sdiv 100000) smod 10),
                  dig ((dts_us d sdiv 10000) smod 10), dig ((dts_us d sdiv 1000) smod 10)]),
     (NPY_FR_us, [dig ((dts_us d sdiv 100) smod 10), dig ((dts_us d sdiv 10) smod 10),
                  dig (dts_us d smod 10)]),
     (NPY_FR_ns, [dig ((dts_ps d sdiv 100000) smod 10), dig ((dts_ps d sdiv 10000) smod 10),
                  dig ((dts_ps d sdiv 1000) smod 10)]),
     (NPY_FR_ps, [dig ((dts_ps d sdiv 100) smod 10), dig ((dts_ps d sdiv 10) smod 10),
                  dig (dts_ps d smod 10)]),
     (NPY_FR_fs, [dig ((dts_as d sdiv 100000) smod 10), dig ((dts_as d sdiv 10000) smod 10),
                  dig ((dts_as d sdiv 1000) smod 10)]),
     (NPY_FR_as, [dig ((dts_as d sdiv 100) smod 10), dig ((dts_as d sdiv 10) smod 10),
                  dig (dts_as d smod 10)])]"

text \<open>Emit block after block until the block of the requested unit has been written.\<close>

fun emit_fields :: "NPY_DATETIMEUNIT \<Rightarrow> (NPY_DATETIMEUNIT \<times> string) list \<Rightarrow> fmt_state
                    \<Rightarrow> string + fmt_state" where
  "emit_fields base [] st = Inr st"
| "emit_fields base ((u, cs) # gs) st =
     (case emit cs st of
        Inl b \<Rightarrow> Inl b
      | Inr st' \<Rightarrow> if base = u then Inr st' else emit_fields base gs st')"

text \<open>The label \<^verbatim>\<open>add_time_zone\<close>, up to the final terminator.\<close>

definition add_time_zone :: "bool \<Rightarrow> int \<Rightarrow> fmt_state \<Rightarrow> string + fmt_state" where
  "add_time_zone local timezone_offset st =
     (if local then
        (let sign = (if timezone_offset < 0 then CHR ''-'' else CHR ''+'');
             tzo = (if timezone_offset < 0 then - timezone_offset else timezone_offset)
         in case emit [sign] st of
              Inl b \<Rightarrow> Inl b
            | Inr st1 \<Rightarrow>
                emit [dig ((tzo sdiv (10 * 60)) smod 10), dig ((tzo sdiv 60) smod 10),
                      dig (((tzo smod 60) sdiv 10) smod 10), dig ((tzo smod 60) smod 10)] st1)
      else emit [CHR ''Z''] st)"

text \<open>The label \<^verbatim>\<open>string_too_short\<close>.\<close>

definition string_too_short :: "int \<Rightarrow> string \<Rightarrow> error option \<times> string" where
  "string_too_short outlen buf =
     (Some StringTooShort, if outlen > 0 then buf[nat (outlen - 1) := CHR 0x00] else buf)"

text \<open>\<^verbatim>\<open>*substr = '\0'; return 0;\<close>\<close>

definition terminate :: "fmt_state \<Rightarrow> error option \<times> string" where
  "terminate st = (None, (f_buf st)[f_pos st := CHR 0x00])"

text \<open>The automatic choice of the unit (\<^verbatim>\<open>base == -1\<close>).\<close>

definition detect_unit :: "npy_datetimestruct \<Rightarrow> bool \<Rightarrow> NPY_DATETIMEUNIT" where
  "detect_unit d local =
     (if dts_as d smod 1000 \<noteq> 0 then NPY_FR_as
      else if dts_as d \<noteq> 0 then NPY_FR_fs
      else if dts_ps d smod 1000 \<noteq> 0 then NPY_FR_ps
      else if dts_ps d \<noteq> 0 then NPY_FR_ns
      else if dts_us d smod 1000 \<noteq> 0 then NPY_FR_us
      else if dts_us d \<noteq> 0 then NPY_FR_ms
      else if dts_sec d \<noteq> 0 then NPY_FR_s
      else if local \<or> dts_min d \<noteq> 0 \<or> dts_hour d \<noteq> 0 then NPY_FR_m
      else NPY_FR_D)"

text \<open>
  The conversion to local time: the struct to print and the offset in minutes, or the
  failure of \<^verbatim>\<open>localtime_r\<close>. The day counts are those of the year range the gate lets
  through, so the \<^verbatim>\<open>time_t\<close> arithmetic is on mathematical integers.
\<close>

definition to_local :: "env \<Rightarrow> npy_datetimestruct \<Rightarrow> bool \<Rightarrow> int
                        \<Rightarrow> error + (npy_datetimestruct \<times> int)" where
  "to_local E d local tzoffset =
     (if local \<and> tzoffset = -1 then
        (let rawtime = get_datetimestruct_days E d * 24 * 60 * 60
                       + dts_hour d * 60 * 60 + dts_min d * 60
         in case localtime_r E rawtime of
              None \<Rightarrow> Inl LocaltimeError
            | Some t \<Rightarrow>
                (let dl = d\<lparr>dts_min := tm_min t, dts_hour := tm_hour t, dts_day := tm_mday t,
                            dts_month := tm_mon t + 1,
                            dts_year := word_of_int (tm_year t + 1900)\<rparr>;
                     rawtime = rawtime sdiv 60;
                     localrawtime = get_datetimestruct_days E dl * 24 * 60
                                    + dts_hour dl * 60 + dts_min dl
                 in Inr (dl, localrawtime - rawtime)))
      else if local then Inr (add_minutes_to_datetimestruct E d tzoffset, tzoffset)
      else Inr (d, 0))"

text \<open>
  The emission, from the block YEAR to the end of the function, on the struct chosen for
  printing. The result is the error raised (\<open>None\<close> for the return value 0) and the
  buffer as the call leaves it.
\<close>

definition emit_datetime ::
  "npy_datetimestruct \<Rightarrow> string \<Rightarrow> int \<Rightarrow> bool \<Rightarrow> NPY_DATETIMEUNIT \<Rightarrow> int
   \<Rightarrow> error option \<times> string" where
  "emit_datetime d outstr outlen local base timezone_offset =
     (let sublen = to_char outlen;
          (buf, tmplen) = snprintf_04lld outstr 0 sublen (dts_year d)
      in if tmplen < 0 \<or> tmplen \<ge> sublen then string_too_short outlen buf
         else
           (let st = \<lparr>f_buf = buf, f_pos = nat tmplen, f_sublen = to_char (sublen - tmplen)\<rparr>
            in if base = NPY_FR_Y then terminate st
               else
                 (case emit_fields base (field_groups d) st of
                    Inl b \<Rightarrow> string_too_short outlen b
                  | Inr st1 \<Rightarrow>
                      if base = NPY_FR_M \<or> base = NPY_FR_D then terminate st1
                      else
                        (case add_time_zone local timezone_offset st1 of
                           Inl b \<Rightarrow> string_too_short outlen b
                         | Inr st2 \<Rightarrow> terminate st2))))"

text \<open>
  \<^verbatim>\<open>make_iso_8601_datetime\<close>: the NaT branch, the gate on the year range, the choice of
  the unit, the conversion to local time, and the emission.
\<close>

definition make_iso_8601_datetime ::
  "env \<Rightarrow> npy_datetimestruct \<Rightarrow> string \<Rightarrow> int \<Rightarrow> bool \<Rightarrow> NPY_DATETIMEUNIT option \<Rightarrow> int
   \<Rightarrow> error option \<times> string" where
  "make_iso_8601_datetime E dts outstr outlen local base tzoffset =
     (if dts_year dts = NPY_DATETIME_NAT E \<or> base = Some NPY_FR_GENERIC then
        (if outlen < 4 then string_too_short outlen outstr
         else (None, outstr[0 := CHR ''N'', 0 := CHR ''a'', 0 := CHR ''T'', 0 := CHR 0x00]))
      else
        (let local = (if (sint (dts_year dts) \<le> 1900 \<or> sint (dts_year dts) \<ge> 10000)
                         \<and> tzoffset = -1 then False else local);
             base = (case base of
                       None \<Rightarrow> detect_unit dts local
                     | Some b \<Rightarrow> if b = NPY_FR_W then NPY_FR_D else b);
             local = (if unit_rank base < unit_rank NPY_FR_h then False else local)
         in case to_local E dts local tzoffset of
              Inl e \<Rightarrow> (Some e, outstr)
            | Inr (d, timezone_offset) \<Rightarrow>
                emit_datetime d outstr outlen local base timezone_offset))"

section \<open>The parser\<close>

subsection \<open>The cursor\<close>

text \<open>
  \<open>rest\<close> holds the bytes from \<^verbatim>\<open>substr\<close> up to the terminator, \<open>pos\<close> is \<^verbatim>\<open>substr - str\<close>,
  \<open>sublen\<close> is the \<^verbatim>\<open>char\<close> counter. Reading \<^verbatim>\<open>*substr\<close> at the end of the string reads
  the terminator.
\<close>

record pstate =
  rest :: string
  pos :: nat
  sublen :: int

definition cur :: "pstate \<Rightarrow> char" where
  "cur st = (case rest st of [] \<Rightarrow> CHR 0x00 | c # _ \<Rightarrow> c)"

text \<open>\<^verbatim>\<open>substr += k; sublen -= k;\<close>\<close>

definition adv :: "nat \<Rightarrow> pstate \<Rightarrow> pstate" where
  "adv k st = \<lparr>rest = drop k (rest st), pos = pos st + k, sublen = to_char (sublen st - int k)\<rparr>"

text \<open>\<^verbatim>\<open>while (sublen > 0 && isspace(*substr)) { ++substr; --sublen; }\<close>\<close>

fun skip_space :: "string \<Rightarrow> nat \<Rightarrow> int \<Rightarrow> pstate" where
  "skip_space [] p n = \<lparr>rest = [], pos = p, sublen = n\<rparr>"
| "skip_space (c # cs) p n =
     (if n > 0 \<and> isspace c then skip_space cs (Suc p) (to_char (n - 1))
      else \<lparr>rest = c # cs, pos = p, sublen = n\<rparr>)"

text \<open>
  \<^verbatim>\<open>while (sublen > 0 && isdigit(*substr)) { out->year = 10 * out->year + (*substr - '0'); ... }\<close>
\<close>

fun parse_year :: "64 word \<Rightarrow> string \<Rightarrow> nat \<Rightarrow> int \<Rightarrow> 64 word \<times> pstate" where
  "parse_year y [] p n = (y, \<lparr>rest = [], pos = p, sublen = n\<rparr>)"
| "parse_year y (c # cs) p n =
     (if n > 0 \<and> isdigit c
      then parse_year (10 * y + word_of_int (digit_val c)) cs (Suc p) (to_char (n - 1))
      else (y, \<lparr>rest = c # cs, pos = p, sublen = n\<rparr>))"

text \<open>
  The test \<^verbatim>\<open>sublen >= 2 && isdigit(substr[0]) && isdigit(substr[1])\<close> of every two-digit
  field, with the value \<^verbatim>\<open>10 * (substr[0] - '0') + (substr[1] - '0')\<close> and the cursor after
  \<^verbatim>\<open>substr += 2; sublen -= 2;\<close>.
\<close>

definition two_digits :: "pstate \<Rightarrow> (int \<times> pstate) option" where
  "two_digits st =
     (case rest st of
        c0 # c1 # _ \<Rightarrow>
          if sublen st \<ge> 2 \<and> isdigit c0 \<and> isdigit c1
          then Some (10 * digit_val c0 + digit_val c1, adv 2 st) else None
      | _ \<Rightarrow> None)"

text \<open>
  One group of fractional digits; the first argument counts the iterations left of
  \<^verbatim>\<open>for (i = 0; i < 6; ++i)\<close>. The field is multiplied by 10 in every iteration, a
  digit is consumed only while there is one.
\<close>

fun frac_digits :: "nat \<Rightarrow> int \<Rightarrow> nat \<Rightarrow> pstate \<Rightarrow> int \<times> nat \<times> pstate" where
  "frac_digits 0 v numdigits st = (v, numdigits, st)"
| "frac_digits (Suc i) v numdigits st =
     (if sublen st > 0 \<and> isdigit (cur st)
      then frac_digits i (v * 10 + digit_val (cur st)) (Suc numdigits) (adv 1 st)
      else frac_digits i (v * 10) numdigits st)"

subsection \<open>The scan of the fields\<close>

text \<open>
  The scan leaves through one of two labels: \<^verbatim>\<open>finish\<close> (after \<^verbatim>\<open>*out_local = 0\<close>) or
  \<^verbatim>\<open>parse_timezone\<close>, with the best unit, the struct and the cursor; or it fails.
\<close>

datatype label = Finish | ParseTimezone

type_synonym scanned = "label \<times> NPY_DATETIMEUNIT \<times> npy_datetimestruct \<times> pstate"

text \<open>The three groups after the decimal point; always continues at \<^verbatim>\<open>parse_timezone\<close>.\<close>

definition parse_fraction ::
  "npy_datetimestruct \<Rightarrow> pstate \<Rightarrow> NPY_DATETIMEUNIT \<times> npy_datetimestruct \<times> pstate" where
  "parse_fraction out st =
     (let (v, numdigits, st) = frac_digits 6 (dts_us out) 0 st;
          out = out\<lparr>dts_us := v\<rparr>
      in if sublen st = 0 \<or> \<not> isdigit (cur st)
         then (if numdigits > 3 then NPY_FR_us else NPY_FR_ms, out, st)
         else
           (let (v, numdigits, st) = frac_digits 6 (dts_ps out) 0 st;
                out = out\<lparr>dts_ps := v\<rparr>
            in if sublen st = 0 \<or> \<not> isdigit (cur st)
               then (if numdigits > 3 then NPY_FR_ps else NPY_FR_ns, out, st)
               else
                 (let (v, numdigits, st) = frac_digits 6 (dts_as out) 0 st;
                      out = out\<lparr>dts_as := v\<rparr>
                  in (if numdigits > 3 then NPY_FR_as else NPY_FR_fs, out, st))))"

definition scan_seconds :: "npy_datetimestruct \<Rightarrow> pstate \<Rightarrow> error + scanned" where
  "scan_seconds out st =
     (case two_digits st of
        None \<Rightarrow> Inl (ParseError (pos st))
      | Some (v, st) \<Rightarrow>
          if v < 0 \<or> v \<ge> 60 then Inl SecondsOutOfRange
          else
            (let out = out\<lparr>dts_sec := v\<rparr>
             in if sublen st > 0 \<and> cur st = CHR ''.''
                then (let (bestunit, out, st) = parse_fraction out (adv 1 st)
                      in Inr (ParseTimezone, bestunit, out, st))
                else Inr (ParseTimezone, NPY_FR_s, out, st)))"

text \<open>The range test of the minutes reads \<^verbatim>\<open>out->hour < 0 || out->min >= 60\<close>.\<close>

definition scan_minutes :: "npy_datetimestruct \<Rightarrow> pstate \<Rightarrow> error + scanned" where
  "scan_minutes out st =
     (case two_digits st of
        None \<Rightarrow> Inl (ParseError (pos st))
      | Some (v, st) \<Rightarrow>
          if dts_hour out < 0 \<or> v \<ge> 60 then Inl MinutesOutOfRange
          else
            (let out = out\<lparr>dts_min := v\<rparr>
             in if sublen st > 0 \<and> cur st = CHR '':''
                then (let st = adv 1 st
                      in if sublen st = 0 then Inl (ParseError (pos st))
                         else scan_seconds out st)
                else Inr (ParseTimezone, NPY_FR_m, out, st)))"

definition scan_hours :: "npy_datetimestruct \<Rightarrow> pstate \<Rightarrow> error + scanned" where
  "scan_hours out st =
     (case two_digits st of
        None \<Rightarrow> Inl (ParseError (pos st))
      | Some (v, st) \<Rightarrow>
          if v < 0 \<or> v \<ge> 24 then Inl HoursOutOfRange
          else
            (let out = out\<lparr>dts_hour := v\<rparr>
             in if sublen st > 0 \<and> cur st = CHR '':''
                then (let st = adv 1 st
                      in if sublen st = 0 then Inl (ParseError (pos st))
                         else scan_minutes out st)
                else Inr (ParseTimezone, NPY_FR_h, out, st)))"

definition scan_day :: "env \<Rightarrow> bool \<Rightarrow> npy_datetimestruct \<Rightarrow> pstate \<Rightarrow> error + scanned" where
  "scan_day E year_leap out st =
     (case two_digits st of
        None \<Rightarrow> Inl (ParseError (pos st))
      | Some (v, st) \<Rightarrow>
          if v < 1 \<or> v > days_per_month_table E year_leap (dts_month out - 1)
          then Inl DayOutOfRange
          else
            (let out = out\<lparr>dts_day := v\<rparr>
             in if sublen st = 0 then Inr (Finish, NPY_FR_D, out, st)
                else if cur st \<noteq> CHR ''T'' \<and> cur st \<noteq> CHR '' '' then Inl (ParseError (pos st))
                else scan_hours out (adv 1 st)))"

definition scan_month :: "env \<Rightarrow> bool \<Rightarrow> npy_datetimestruct \<Rightarrow> pstate \<Rightarrow> error + scanned" where
  "scan_month E year_leap out st =
     (case two_digits st of
        None \<Rightarrow> Inl (ParseError (pos st))
      | Some (v, st) \<Rightarrow>
          if v < 1 \<or> v > 12 then Inl MonthOutOfRange
          else
            (let out = out\<lparr>dts_month := v\<rparr>
             in if sublen st = 0 then Inr (Finish, NPY_FR_M, out, st)
                else if cur st = CHR ''-''
                then (let st = adv 1 st
                      in if sublen st = 0 then Inl (ParseError (pos st))
                         else scan_day E year_leap out st)
                else Inl (ParseError (pos st))))"

text \<open>\<^verbatim>\<open>str[0]\<close>, for a string of positive length.\<close>

definition first_char :: "string \<Rightarrow> char" where
  "first_char str = (case str of [] \<Rightarrow> CHR 0x00 | c # _ \<Rightarrow> c)"

text \<open>
  From "Skip leading whitespace" to the year and on through the fields. The counter starts
  as the \<^verbatim>\<open>char\<close> conversion of \<^verbatim>\<open>len\<close>; the sign of the year is decided by \<^verbatim>\<open>str[0]\<close>.
\<close>

definition scan_datetime :: "env \<Rightarrow> string \<Rightarrow> npy_datetimestruct \<Rightarrow> error + scanned" where
  "scan_datetime E str out =
     (let st = skip_space str 0 (to_char (int (length str)));
          st = (if cur st = CHR ''-'' then adv 1 st else st)
      in if sublen st = 0 then Inl (ParseError (pos st))
         else
           (let (y, st) = parse_year 0 (rest st) (pos st) (sublen st);
                y = (if first_char str = CHR ''-'' then - y else y);
                out = out\<lparr>dts_year := y\<rparr>;
                year_leap = is_leapyear E y
            in if sublen st = 0 then Inr (Finish, NPY_FR_Y, out, st)
               else if cur st = CHR ''-''
               then (let st = adv 1 st
                     in if sublen st = 0 then Inl (ParseError (pos st))
                        else scan_month E year_leap out st)
               else Inl (ParseError (pos st))))"

subsection \<open>The time zone\<close>

text \<open>
  The local time of a string without a zone, converted to UTC by \<^verbatim>\<open>mktime\<close> and
  \<^verbatim>\<open>gmtime_r\<close>, for the years 1901 to 9999.
\<close>

definition local_to_utc :: "env \<Rightarrow> npy_datetimestruct \<Rightarrow> error + npy_datetimestruct" where
  "local_to_utc E out =
     (if sint (dts_year out) > 1900 \<and> sint (dts_year out) < 10000 then
        (let t = \<lparr>tm_sec = dts_sec out, tm_min = dts_min out, tm_hour = dts_hour out,
                  tm_mday = dts_day out, tm_mon = dts_month out - 1,
                  tm_year = sint (dts_year out) - 1900, tm_isdst = -1\<rparr>;
             rawtime = mktime E t
         in if rawtime = -1 then Inl MktimeError
            else
              (case gmtime_r E rawtime of
                 None \<Rightarrow> Inl GmtimeError
               | Some t \<Rightarrow>
                   Inr (out\<lparr>dts_sec := tm_sec t, dts_min := tm_min t, dts_hour := tm_hour t,
                            dts_day := tm_mday t, dts_month := tm_mon t + 1,
                            dts_year := word_of_int (tm_year t + 1900)\<rparr>)))
      else Inr out)"

text \<open>The offset \<^verbatim>\<open>+HH\<close>, \<^verbatim>\<open>+HHMM\<close> or \<^verbatim>\<open>+HH:MM\<close> (or with \<^verbatim>\<open>-\<close>), the cursor on the sign.\<close>

definition offset_minutes :: "pstate \<Rightarrow> error + (int \<times> pstate)" where
  "offset_minutes st =
     (if sublen st > 0 then
        (let st = (if cur st = CHR '':'' then adv 1 st else st)
         in case two_digits st of
              None \<Rightarrow> Inl (ParseError (pos st))
            | Some (offset_minute, st) \<Rightarrow>
                if offset_minute \<ge> 60 then Inl TzMinutesOutOfRange
                else Inr (offset_minute, st))
      else Inr (0, st))"

definition parse_offset :: "env \<Rightarrow> npy_datetimestruct \<Rightarrow> pstate
                            \<Rightarrow> error + (npy_datetimestruct \<times> pstate)" where
  "parse_offset E out st =
     (let offset_neg = (cur st = CHR ''-'');
          st = adv 1 st
      in case two_digits st of
           None \<Rightarrow> Inl (ParseError (pos st))
         | Some (offset_hour, st) \<Rightarrow>
             if offset_hour \<ge> 24 then Inl TzHoursOutOfRange
             else
               (case offset_minutes st of
                  Inl e \<Rightarrow> Inl e
                | Inr (offset_minute, st) \<Rightarrow>
                    (let offset_hour = (if offset_neg then - offset_hour else offset_hour);
                         offset_minute = (if offset_neg then - offset_minute else offset_minute)
                     in Inr (add_minutes_to_datetimestruct E out
                               (- 60 * offset_hour - offset_minute), st))))"

text \<open>\<^verbatim>\<open>/* Skip trailing whitespace */\<close> and the test \<^verbatim>\<open>sublen != 0\<close> before \<^verbatim>\<open>finish\<close>.\<close>

definition trailing :: "npy_datetimestruct \<Rightarrow> bool option \<Rightarrow> pstate
                        \<Rightarrow> error + (npy_datetimestruct \<times> bool option)" where
  "trailing out loc st =
     (let st = skip_space (rest st) (pos st) (sublen st)
      in if sublen st \<noteq> 0 then Inl (ParseError (pos st)) else Inr (out, loc))"

text \<open>
  The label \<^verbatim>\<open>parse_timezone\<close>, up to \<^verbatim>\<open>finish\<close>. The second component of the result is
  what the call stores in \<^verbatim>\<open>*out_local\<close>; \<open>None\<close> is the path that stores nothing there
  (neither an exhausted string, nor \<^verbatim>\<open>Z\<close>, nor a sign).
\<close>

definition parse_timezone :: "env \<Rightarrow> npy_datetimestruct \<Rightarrow> pstate
                              \<Rightarrow> error + (npy_datetimestruct \<times> bool option)" where
  "parse_timezone E out st =
     (if sublen st = 0 then
        (case local_to_utc E out of
           Inl e \<Rightarrow> Inl e
         | Inr out \<Rightarrow> Inr (out, Some True))
      else if cur st = CHR ''Z'' then
        (if sublen st = 1 then Inr (out, Some False)
         else trailing out (Some False) (adv 1 st))
      else if cur st = CHR ''-'' \<or> cur st = CHR ''+'' then
        (case parse_offset E out st of
           Inl e \<Rightarrow> Inl e
         | Inr (out, st) \<Rightarrow> trailing out (Some False) st)
      else trailing out None st)"

subsection \<open>\<^verbatim>\<open>parse_iso_8601_datetime\<close>\<close>

text \<open>
  What a successful call leaves in its four output parameters. \<open>out_local\<close> is \<open>None\<close>
  when the call did not store into \<^verbatim>\<open>*out_local\<close>.
\<close>

record parsed =
  out :: npy_datetimestruct
  out_local :: "bool option"
  out_bestunit :: NPY_DATETIMEUNIT
  out_special :: bool

text \<open>\<^verbatim>\<open>len == n && tolower(str[0]) == ... && tolower(str[n-1]) == ...\<close>\<close>

definition is_token :: "string \<Rightarrow> string \<Rightarrow> bool" where
  "is_token tok str = (length str = length tok \<and> map tolower str = tok)"

text \<open>\<^verbatim>\<open>unit != -1 && !can_cast_datetime64_units(bestunit, unit, casting)\<close>\<close>

definition cast_fails :: "env \<Rightarrow> NPY_DATETIMEUNIT \<Rightarrow> NPY_DATETIMEUNIT option \<Rightarrow> NPY_CASTING
                          \<Rightarrow> bool" where
  "cast_fails E bestunit unit casting =
     (case unit of
        None \<Rightarrow> False
      | Some u \<Rightarrow> \<not> can_cast_datetime64_units E bestunit u casting)"

text \<open>\<^verbatim>\<open>memset(out, 0, sizeof(npy_datetimestruct)); out->month = 1; out->day = 1;\<close>\<close>

definition zero_dts :: npy_datetimestruct where
  "zero_dts = \<lparr>dts_year = 0, dts_month = 1, dts_day = 1, dts_hour = 0, dts_min = 0,
               dts_sec = 0, dts_us = 0, dts_ps = 0, dts_as = 0\<rparr>"

text \<open>The general path: the scan, the time zone, and the casting rule at \<^verbatim>\<open>finish\<close>.\<close>

definition parse_general :: "env \<Rightarrow> string \<Rightarrow> NPY_DATETIMEUNIT option \<Rightarrow> NPY_CASTING
                             \<Rightarrow> error + parsed" where
  "parse_general E str unit casting =
     (case scan_datetime E str zero_dts of
        Inl e \<Rightarrow> Inl e
      | Inr (lbl, bestunit, d, st) \<Rightarrow>
          (case (case lbl of
                   Finish \<Rightarrow> Inr (d, Some False)
                 | ParseTimezone \<Rightarrow> parse_timezone E d st) of
             Inl e \<Rightarrow> Inl e
           | Inr (d, loc) \<Rightarrow>
               if cast_fails E bestunit unit casting then Inl CastingError
               else Inr \<lparr>out = d, out_local = loc, out_bestunit = bestunit,
                         out_special = False\<rparr>))"

text \<open>The special value \<^verbatim>\<open>"today"\<close>.\<close>

definition parse_today :: "env \<Rightarrow> NPY_DATETIMEUNIT option \<Rightarrow> NPY_CASTING \<Rightarrow> error + parsed" where
  "parse_today E unit casting =
     (if (case unit of None \<Rightarrow> False | Some u \<Rightarrow> unit_rank u > unit_rank NPY_FR_D)
      then Inl TodayUnitsError
      else
        (case localtime_r E (time_now E) of
           None \<Rightarrow> Inl LocaltimeError
         | Some t \<Rightarrow>
             if cast_fails E NPY_FR_D unit casting then Inl CastingError
             else Inr \<lparr>out = zero_dts\<lparr>dts_year := word_of_int (tm_year t + 1900),
                                       dts_month := tm_mon t + 1, dts_day := tm_mday t\<rparr>,
                       out_local = Some False, out_bestunit = NPY_FR_D, out_special = True\<rparr>))"

text \<open>The special value \<^verbatim>\<open>"now"\<close>.\<close>

definition parse_now :: "env \<Rightarrow> NPY_DATETIMEUNIT option \<Rightarrow> NPY_CASTING \<Rightarrow> error + parsed" where
  "parse_now E unit casting =
     (if cast_fails E NPY_FR_s unit casting then Inl CastingError
      else
        (case convert_datetime_to_datetimestruct E (time_now E) of
           None \<Rightarrow> Inl ConvertError
         | Some d \<Rightarrow> Inr \<lparr>out = d, out_local = Some False, out_bestunit = NPY_FR_s,
                          out_special = True\<rparr>))"

text \<open>
  \<^verbatim>\<open>parse_iso_8601_datetime\<close>, for a string \<open>str\<close> with \<^verbatim>\<open>len\<close> its length, and non-null
  output pointers.
\<close>

definition parse_iso_8601_datetime :: "env \<Rightarrow> string \<Rightarrow> NPY_DATETIMEUNIT option \<Rightarrow> NPY_CASTING
                                       \<Rightarrow> error + parsed" where
  "parse_iso_8601_datetime E str unit casting =
     (if length str = 0 \<or> is_token ''nat'' str
      then Inr \<lparr>out = zero_dts\<lparr>dts_year := NPY_DATETIME_NAT E\<rparr>, out_local = Some False,
                out_bestunit = NPY_FR_GENERIC, out_special = True\<rparr>
      else if unit = Some NPY_FR_GENERIC then Inl GenericUnitsError
      else if is_token ''today'' str then parse_today E unit casting
      else if is_token ''now'' str then parse_now E unit casting
      else parse_general E str unit casting)"

section \<open>Notions used in the statements and proofs\<close>

text \<open>The C string a buffer holds: the bytes before the first terminator.\<close>

definition c_string :: "string \<Rightarrow> string" where
  "c_string buf = takeWhile (\<lambda>c. c \<noteq> CHR 0x00) buf"

text \<open>
  The number of characters \<open>emit_fields\<close> writes for a unit: the blocks up to and
  including the block of the unit.
\<close>

fun need :: "NPY_DATETIMEUNIT \<Rightarrow> (NPY_DATETIMEUNIT \<times> string) list \<Rightarrow> nat" where
  "need base [] = 0"
| "need base ((u, cs) # gs) = length cs + (if base = u then 0 else need base gs)"

text \<open>
  Modelled from the spec: the leap-year test and the days-per-month table belong to the
  calendar library, which is not part of the source file; the specification names them
  \<^verbatim>\<open>isLeapYear(year)\<close> and \<^verbatim>\<open>daysInMonth(year, month)\<close> with a leap-year-aware month
  length. These are the rules of the Gregorian calendar, used where a statement needs a
  concrete calendar.
\<close>

definition gregorian_leap :: "64 word \<Rightarrow> bool" where
  "gregorian_leap y = (sint y mod 4 = 0 \<and> (sint y mod 100 \<noteq> 0 \<or> sint y mod 400 = 0))"

definition gregorian_days :: "bool \<Rightarrow> int \<Rightarrow> int" where
  "gregorian_days leap i =
     (if leap then [31, 29, 31, 30, 31, 30, 31, 31, 30, 31, 30, 31] ! nat i
      else [31, 28, 31, 30, 31, 30, 31, 31, 30, 31, 30, 31] ! nat i)"

text \<open>
  A concrete environment for the closed statements: the Gregorian calendar, a casting
  rule that lets a unit through only unchanged (or under the unsafe rule), a host whose
  clock stands at the epoch in UTC (so that every local time converts to the epoch),
  and an \<^verbatim>\<open>add_minutes_to_datetimestruct\<close> that leaves the struct as it is.
\<close>

definition epoch_tm :: tm where
  "epoch_tm = \<lparr>tm_sec = 0, tm_min = 0, tm_hour = 0, tm_mday = 1, tm_mon = 0, tm_year = 70,
               tm_isdst = 0\<rparr>"

definition example_env :: env where
  "example_env =
     \<lparr>NPY_DATETIME_NAT = - (2 ^ 63), NPY_DATETIME_MAX_ISO8601_STRLEN = 62,
      is_leapyear = gregorian_leap, days_per_month_table = gregorian_days,
      can_cast_datetime64_units = (\<lambda>src dst rule. rule = NPY_UNSAFE_CASTING \<or> src = dst),
      time_now = 0,
      localtime_r = (\<lambda>t. Some epoch_tm), gmtime_r = (\<lambda>t. Some epoch_tm), mktime = (\<lambda>t. 0),
      convert_datetime_to_datetimestruct = (\<lambda>t. Some (zero_dts\<lparr>dts_year := 1970\<rparr>)),
      get_datetimestruct_days = (\<lambda>d. 0), add_minutes_to_datetimestruct = (\<lambda>d m. d)\<rparr>"

text \<open>
  The ranges of the fields of a struct whose best unit is \<open>u\<close>, for the month lengths
  \<open>mlen\<close> (indexed from 0). The day is held against the month length when the string
  had a day.
\<close>

definition fields_in_range :: "(int \<Rightarrow> int) \<Rightarrow> NPY_DATETIMEUNIT \<Rightarrow> npy_datetimestruct \<Rightarrow> bool" where
  "fields_in_range mlen u d =
     (1 \<le> dts_month d \<and> dts_month d \<le> 12
      \<and> 1 \<le> dts_day d \<and> (unit_rank u < 4 \<or> dts_day d \<le> mlen (dts_month d - 1))
      \<and> 0 \<le> dts_hour d \<and> dts_hour d \<le> 23
      \<and> 0 \<le> dts_min d \<and> dts_min d \<le> 59
      \<and> 0 \<le> dts_sec d \<and> dts_sec d \<le> 59)"

text \<open>
  For a string that starts with a year: \<open>year_text ws sg ys\<close> says that \<open>ws\<close> is
  whitespace, \<open>sg\<close> the optional sign and \<open>ys\<close> the digits of the year; \<open>year_value\<close>
  is what the loop over those digits accumulates and \<open>scanned_year\<close> the year the scan
  stores, negated when the sign is the first byte of the string. \<open>field_value\<close> is the
  value of a two-digit field, \<open>cursor s p\<close> the cursor at offset \<open>p\<close> with the bytes \<open>s\<close>
  left and the counter at their number. \<open>valid_month\<close> and \<open>valid_day\<close> say that the
  two bytes of a month or a day are digits with a value in range, the day against
  \<open>month_length\<close>: the entry of the table of the environment for the leap status of
  the year and that month.
\<close>

definition year_text :: "string \<Rightarrow> string \<Rightarrow> string \<Rightarrow> bool" where
  "year_text ws sg ys =
     (list_all isspace ws \<and> (sg = [] \<or> sg = ''-'') \<and> list_all isdigit ys \<and> ys \<noteq> [])"

definition year_value :: "string \<Rightarrow> 64 word" where
  "year_value ys = foldl (\<lambda>a c. 10 * a + word_of_int (digit_val c)) 0 ys"

definition scanned_year :: "string \<Rightarrow> string \<Rightarrow> string \<Rightarrow> 64 word" where
  "scanned_year ws sg ys = (if ws = [] \<and> sg = ''-'' then - year_value ys else year_value ys)"

definition field_value :: "char \<Rightarrow> char \<Rightarrow> int" where
  "field_value c0 c1 = 10 * digit_val c0 + digit_val c1"

definition cursor :: "string \<Rightarrow> nat \<Rightarrow> pstate" where
  "cursor s p = \<lparr>rest = s, pos = p, sublen = int (length s)\<rparr>"

definition valid_month :: "char \<Rightarrow> char \<Rightarrow> bool" where
  "valid_month m1 m2 =
     (isdigit m1 \<and> isdigit m2 \<and> 1 \<le> field_value m1 m2 \<and> field_value m1 m2 \<le> 12)"

definition month_length :: "env \<Rightarrow> 64 word \<Rightarrow> char \<Rightarrow> char \<Rightarrow> int" where
  "month_length E y m1 m2 = days_per_month_table E (is_leapyear E y) (field_value m1 m2 - 1)"

definition valid_day :: "env \<Rightarrow> 64 word \<Rightarrow> char \<Rightarrow> char \<Rightarrow> char \<Rightarrow> char \<Rightarrow> bool" where
  "valid_day E y m1 m2 c1 c2 =
     (isdigit c1 \<and> isdigit c2 \<and> 1 \<le> field_value c1 c2
      \<and> field_value c1 c2 \<le> month_length E y m1 m2)"

text \<open>
  The time-zone part of a string: the bytes left when the scan reaches the label
  \<^verbatim>\<open>parse_timezone\<close> (none when the scan fails or leaves through \<^verbatim>\<open>finish\<close>).
  \<open>hours_only\<close> bytes are an offset without minutes: a sign and two more bytes.
\<close>

definition zone_text :: "env \<Rightarrow> string \<Rightarrow> string" where
  "zone_text E str =
     (case scan_datetime E str zero_dts of
        Inr (ParseTimezone, u, d, st) \<Rightarrow> rest st
      | _ \<Rightarrow> [])"

definition hours_only :: "string \<Rightarrow> bool" where
  "hours_only zt = (length zt = 3 \<and> (first_char zt = CHR ''-'' \<or> first_char zt = CHR ''+''))"

text \<open>
  The digits the fraction can read at a cursor: the digits at the front of the bytes
  the counter still covers. \<open>unit_of_digit_count\<close> is the unit for that many digits:
  the finer unit of a group of six when more than three of its digits are there.
\<close>

definition window_digits :: "pstate \<Rightarrow> nat" where
  "window_digits st = length (takeWhile isdigit (take (nat (sublen st)) (rest st)))"

definition unit_of_digit_count :: "nat \<Rightarrow> NPY_DATETIMEUNIT" where
  "unit_of_digit_count k =
     (if k \<le> 6 then (if k > 3 then NPY_FR_us else NPY_FR_ms)
      else if k \<le> 12 then (if k - 6 > 3 then NPY_FR_ps else NPY_FR_ns)
      else (if k - 12 > 3 then NPY_FR_as else NPY_FR_fs))"

text \<open>What a successful parse of \<^verbatim>\<open>"today"\<close> returns for the local time \<open>t\<close> of the host.\<close>

definition today_result :: "tm \<Rightarrow> parsed" where
  "today_result t =
     \<lparr>out = zero_dts\<lparr>dts_year := word_of_int (tm_year t + 1900), dts_month := tm_mon t + 1,
                      dts_day := tm_mday t\<rparr>,
      out_local = Some False, out_bestunit = NPY_FR_D, out_special = True\<rparr>"

text \<open>
  For strings short enough for the \<^verbatim>\<open>char\<close> counter: the counter agrees with the bytes
  left (\<open>in_step\<close>); the same cursor on the string with one space appended
  (\<open>append_space\<close>); and "the cursor \<open>st'\<close> is further on than \<open>st\<close>, the last byte
  passed being a digit or the decimal point" (\<open>consumed\<close>).
\<close>

definition in_step :: "pstate \<Rightarrow> bool" where
  "in_step st = (sublen st = int (length (rest st)) \<and> length (rest st) \<le> 126)"

definition append_space :: "pstate \<Rightarrow> pstate" where
  "append_space st = st\<lparr>rest := rest st @ '' '', sublen := sublen st + 1\<rparr>"

definition digit_or_dot :: "char \<Rightarrow> bool" where
  "digit_or_dot c = (isdigit c \<or> c = CHR ''.'')"

definition consumed :: "pstate \<Rightarrow> pstate \<Rightarrow> bool" where
  "consumed st st' =
     (\<exists>k. 0 < k \<and> k \<le> length (rest st) \<and> rest st' = drop k (rest st)
          \<and> digit_or_dot (rest st ! (k - 1)))"

text \<open>A struct with a date, a time of day and microseconds, for the closed statements.\<close>

definition sample_dts :: npy_datetimestruct where
  "sample_dts = \<lparr>dts_year = 2016, dts_month = 1, dts_day = 2, dts_hour = 12, dts_min = 30,
                 dts_sec = 45, dts_us = 123456, dts_ps = 0, dts_as = 0\<rparr>"

text \<open>
  For the decimal point of a string: \<open>dot_free\<close> bytes hold none; \<open>fraction_of\<close> is what
  follows the first one; \<open>dot_trace xs ys u\<close> says of a scan from the bytes \<open>xs\<close> to the
  bytes \<open>ys\<close> with best unit \<open>u\<close> that it either passed no decimal point, or passed
  the first one of \<open>xs\<close> and took \<open>u\<close> from the digits after it.
\<close>

definition dot_free :: "string \<Rightarrow> bool" where
  "dot_free cs = (CHR ''.'' \<notin> set cs)"

definition fraction_of :: "string \<Rightarrow> string" where
  "fraction_of s = drop 1 (dropWhile (\<lambda>c. c \<noteq> CHR ''.'') s)"

definition dot_trace :: "string \<Rightarrow> string \<Rightarrow> NPY_DATETIMEUNIT \<Rightarrow> bool" where
  "dot_trace xs ys u =
     ((\<exists>cs. xs = cs @ ys \<and> dot_free cs)
      \<or> (CHR ''.'' \<in> set xs
          \<and> u = unit_of_digit_count (length (takeWhile isdigit (fraction_of xs)))))"

section \<open>The formatter and the length calculator: proofs\<close>

lemma to_char_id: "- 128 \<le> n \<Longrightarrow> n \<le> 127 \<Longrightarrow> to_char n = n"
  by (simp add: to_char_def)

lemma length_dec: "n < 10 ^ k \<Longrightarrow> 0 < k \<Longrightarrow> length (dec n) \<le> k"
proof (induction n arbitrary: k rule: dec.induct)
  case (1 n)
  show ?case
  proof (cases "n < 10")
    case True
    then show ?thesis using "1.prems" by (simp add: dec.simps [of n])
  next
    case False
    then obtain j where k: "k = Suc j" and j: "0 < j"
      using "1.prems" by (cases k; cases "k - 1") auto
    have "n div 10 < 10 ^ j" using "1.prems" k by (simp add: less_mult_imp_div_less mult.commute)
    then have "length (dec (n div 10)) \<le> j" using "1.IH" False j by simp
    then show ?thesis using False k by (simp add: dec.simps [of n])
  qed
qed

lemma length_fmt_04lld: "length (fmt_04lld y) \<le> 20"
proof -
  have lo: "- (2 ^ 63) \<le> sint y" using sint_ge [of y] by simp
  have hi: "sint y < 2 ^ 63" using sint_lt [of y] by simp
  show ?thesis
  proof (cases "sint y < 0")
    case True
    have "nat (- sint y) < 10 ^ 19" using lo by simp
    then have "length (dec (nat (- sint y))) \<le> 19" by (rule length_dec) simp
    then show ?thesis using True by (simp add: fmt_04lld_def zero_pad_def)
  next
    case False
    have "nat (sint y) < 10 ^ 19" using hi by simp
    then have "length (dec (nat (sint y))) \<le> 19" by (rule length_dec) simp
    then show ?thesis using False by (simp add: fmt_04lld_def zero_pad_def)
  qed
qed

lemma emit_from_ok:
  "int k + int (length cs) < f_sublen st \<Longrightarrow> f_sublen st \<le> 127 \<Longrightarrow>
   \<exists>b. emit_from k cs st =
     Inr \<lparr>f_buf = b, f_pos = f_pos st + k + length cs,
          f_sublen = f_sublen st - int k - int (length cs)\<rparr>"
proof (induction cs arbitrary: k st)
  case Nil
  then show ?case by (cases st) (simp add: to_char_id)
next
  case (Cons c cs)
  have "\<exists>b. emit_from (Suc k) cs (st\<lparr>f_buf := (f_buf st)[f_pos st + k := c]\<rparr>) =
     Inr \<lparr>f_buf = b, f_pos = f_pos (st\<lparr>f_buf := (f_buf st)[f_pos st + k := c]\<rparr>) + Suc k + length cs,
          f_sublen = f_sublen (st\<lparr>f_buf := (f_buf st)[f_pos st + k := c]\<rparr>) - int (Suc k) - int (length cs)\<rparr>"
    by (rule Cons.IH) (use Cons.prems in auto)
  then show ?case using Cons.prems by (auto simp: Let_def)
qed

lemma emit_ok:
  "int (length cs) < f_sublen st \<Longrightarrow> f_sublen st \<le> 127 \<Longrightarrow>
   \<exists>b. emit cs st =
     Inr \<lparr>f_buf = b, f_pos = f_pos st + length cs, f_sublen = f_sublen st - int (length cs)\<rparr>"
  using emit_from_ok [of 0 cs st] by (simp add: emit_def)

lemma emit_fields_ok:
  "int (need base gs) < f_sublen st \<Longrightarrow> f_sublen st \<le> 127 \<Longrightarrow>
   \<exists>b. emit_fields base gs st =
     Inr \<lparr>f_buf = b, f_pos = f_pos st + need base gs,
          f_sublen = f_sublen st - int (need base gs)\<rparr>"
proof (induction gs arbitrary: st)
  case Nil
  then show ?case by (cases st) simp
next
  case (Cons g gs)
  obtain u cs where g: "g = (u, cs)" by (cases g)
  from Cons.prems g have "int (length cs) < f_sublen st" by (simp split: if_splits)
  from emit_ok [OF this Cons.prems(2)] obtain b where
    e: "emit cs st = Inr \<lparr>f_buf = b, f_pos = f_pos st + length cs,
                          f_sublen = f_sublen st - int (length cs)\<rparr>" by blast
  show ?case
  proof (cases "base = u")
    case True
    then show ?thesis using e g by simp
  next
    case False
    let ?st = "\<lparr>f_buf = b, f_pos = f_pos st + length cs, f_sublen = f_sublen st - int (length cs)\<rparr>"
    have "\<exists>b'. emit_fields base gs ?st =
       Inr \<lparr>f_buf = b', f_pos = f_pos ?st + need base gs,
            f_sublen = f_sublen ?st - int (need base gs)\<rparr>"
      by (rule Cons.IH) (use Cons.prems g False in auto)
    then show ?thesis using e g False by (auto simp: add.assoc)
  qed
qed

lemma emit_ok':
  "int (length cs) < f_sublen st \<Longrightarrow> f_sublen st \<le> 127 \<Longrightarrow> \<exists>st'. emit cs st = Inr st'"
  using emit_ok [of cs st] by blast

lemma add_time_zone_ok:
  assumes "(if local then 5 else 1) < f_sublen st" and "f_sublen st \<le> 127"
  shows "\<exists>st'. add_time_zone local tzo st = Inr st'"
proof (cases local)
  case True
  let ?sign = "if tzo < 0 then CHR ''-'' else CHR ''+''"
  from emit_ok [of "[?sign]" st] assms True obtain b where
    e: "emit [?sign] st = Inr \<lparr>f_buf = b, f_pos = f_pos st + 1, f_sublen = f_sublen st - 1\<rparr>"
    by auto
  let ?st = "\<lparr>f_buf = b, f_pos = f_pos st + 1, f_sublen = f_sublen st - 1\<rparr>"
  have "\<exists>st'. emit [a, b', c, d] ?st = Inr st'" for a b' c d
    by (rule emit_ok') (use assms True in auto)
  then show ?thesis using e True by (simp add: add_time_zone_def Let_def)
next
  case False
  show ?thesis using emit_ok' [of "[CHR ''Z'']" st] assms False by (auto simp: add_time_zone_def)
qed

lemma need_field_groups:
  "need b (field_groups d) =
    (case b of NPY_FR_M \<Rightarrow> 3 | NPY_FR_D \<Rightarrow> 6 | NPY_FR_h \<Rightarrow> 9 | NPY_FR_m \<Rightarrow> 12
     | NPY_FR_s \<Rightarrow> 15 | NPY_FR_ms \<Rightarrow> 19 | NPY_FR_us \<Rightarrow> 22 | NPY_FR_ns \<Rightarrow> 25
     | NPY_FR_ps \<Rightarrow> 28 | NPY_FR_fs \<Rightarrow> 31 | _ \<Rightarrow> 34)"
  by (cases b) (simp_all add: field_groups_def)

lemma switch_len_cases:
  "switch_len b =
    (case b of NPY_FR_Y \<Rightarrow> 21 | NPY_FR_M \<Rightarrow> 24 | NPY_FR_W \<Rightarrow> 27 | NPY_FR_D \<Rightarrow> 27
     | NPY_FR_h \<Rightarrow> 30 | NPY_FR_m \<Rightarrow> 33
     | NPY_FR_s \<Rightarrow> 36 | NPY_FR_ms \<Rightarrow> 40 | NPY_FR_us \<Rightarrow> 43 | NPY_FR_ns \<Rightarrow> 46
     | NPY_FR_ps \<Rightarrow> 49 | NPY_FR_fs \<Rightarrow> 52 | NPY_FR_as \<Rightarrow> 55 | NPY_FR_GENERIC \<Rightarrow> 0)"
  by (cases b) (simp_all add: switch_len_def strlen_cases_def)

lemma strlen_cases:
  "get_datetime_iso_8601_strlen E local (Some b) =
    (if b = NPY_FR_GENERIC then 4
     else switch_len b + (if unit_rank b \<ge> 5 then (if local then 5 else 1) else 0) + 1)"
  by (simp add: get_datetime_iso_8601_strlen_def Let_def)

lemma emit_tail_ok:
  assumes b: "b \<noteq> NPY_FR_GENERIC" "b \<noteq> NPY_FR_W" "b \<noteq> NPY_FR_Y"
    and s: "f_sublen st \<le> 127"
    and n: "int (need b (field_groups d)) + (if unit_rank b \<ge> 5 then (if local then 5 else 1) else 0)
             < f_sublen st"
  shows "fst (case emit_fields b (field_groups d) st of
               Inl buf \<Rightarrow> string_too_short outlen buf
             | Inr st1 \<Rightarrow>
                 if b = NPY_FR_M \<or> b = NPY_FR_D then terminate st1
                 else (case add_time_zone local tzo st1 of
                         Inl buf \<Rightarrow> string_too_short outlen buf
                       | Inr st2 \<Rightarrow> terminate st2)) = None"
proof -
  have "int (need b (field_groups d)) < f_sublen st" using n by (simp split: if_splits)
  from emit_fields_ok [OF this s] obtain buf where
    e: "emit_fields b (field_groups d) st =
          Inr \<lparr>f_buf = buf, f_pos = f_pos st + need b (field_groups d),
               f_sublen = f_sublen st - int (need b (field_groups d))\<rparr>" by blast
  let ?st1 = "\<lparr>f_buf = buf, f_pos = f_pos st + need b (field_groups d),
               f_sublen = f_sublen st - int (need b (field_groups d))\<rparr>"
  show ?thesis
  proof (cases "b = NPY_FR_M \<or> b = NPY_FR_D")
    case True
    then show ?thesis using e by (auto simp: terminate_def)
  next
    case False
    then have r: "unit_rank b \<ge> 5" using b by (cases b) auto
    have "\<exists>st'. add_time_zone local tzo ?st1 = Inr st'"
      by (rule add_time_zone_ok) (use n r s in auto)
    then show ?thesis using e False by (auto simp: terminate_def)
  qed
qed

lemma to_local_error: "to_local E d local tz = Inl e \<Longrightarrow> e = LocaltimeError"
  by (auto simp: to_local_def Let_def split: if_splits option.splits)

lemma snprintf_04lld_snd: "snd (snprintf_04lld buf p sz y) = int (length (fmt_04lld y))"
  by (simp add: snprintf_04lld_def Let_def)

lemma strlen_bounds:
  "4 \<le> get_datetime_iso_8601_strlen E local (Some b)
   \<and> get_datetime_iso_8601_strlen E local (Some b) \<le> 61"
  by (cases b) (simp_all add: strlen_cases switch_len_cases)

lemma strlen_room:
  assumes "b \<noteq> NPY_FR_GENERIC"
  defines "base \<equiv> (if b = NPY_FR_W then NPY_FR_D else b)"
  shows "22 \<le> get_datetime_iso_8601_strlen E local (Some b)"
    and "base \<noteq> NPY_FR_Y \<Longrightarrow>
         int (need base (field_groups d))
          + (if unit_rank base \<ge> 5 then (if local then 5 else 1) else 0) + 22
          \<le> get_datetime_iso_8601_strlen E local (Some b)"
  using assms(1) unfolding base_def
  by (cases b; simp add: strlen_cases switch_len_cases need_field_groups)+

lemma emit_datetime_ok:
  assumes base: "base \<noteq> NPY_FR_GENERIC" "base \<noteq> NPY_FR_W"
    and o: "outlen \<le> 127"
    and room: "21 < outlen"
      "base \<noteq> NPY_FR_Y \<Longrightarrow> int (need base (field_groups d))
          + (if unit_rank base \<ge> 5 then (if local then 5 else 1) else 0) + 21 < outlen"
  shows "fst (emit_datetime d outstr outlen local base tzo) = None"
proof -
  obtain buf tmplen where sn: "snprintf_04lld outstr 0 outlen (dts_year d) = (buf, tmplen)"
    by (cases "snprintf_04lld outstr 0 outlen (dts_year d)")
  have "tmplen = int (length (fmt_04lld (dts_year d)))"
    using snprintf_04lld_snd [of outstr 0 outlen "dts_year d"] sn by simp
  then have t0: "0 \<le> tmplen" and t20: "tmplen \<le> 20"
    using length_fmt_04lld [of "dts_year d"] by simp_all
  define st where "st = \<lparr>f_buf = buf, f_pos = nat tmplen, f_sublen = outlen - tmplen\<rparr>"
  have sub: "to_char outlen = outlen" using o room(1) by (simp add: to_char_id)
  have sub2: "to_char (outlen - tmplen) = outlen - tmplen"
    using o room(1) t0 t20 by (simp add: to_char_id)
  have unfolded: "emit_datetime d outstr outlen local base tzo =
        (if base = NPY_FR_Y then terminate st
         else (case emit_fields base (field_groups d) st of
                 Inl b \<Rightarrow> string_too_short outlen b
               | Inr st1 \<Rightarrow>
                   if base = NPY_FR_M \<or> base = NPY_FR_D then terminate st1
                   else (case add_time_zone local tzo st1 of
                           Inl b \<Rightarrow> string_too_short outlen b
                         | Inr st2 \<Rightarrow> terminate st2)))"
    using sn t0 t20 room(1) by (simp add: emit_datetime_def Let_def sub sub2 st_def)
  show ?thesis
  proof (cases "base = NPY_FR_Y")
    case True
    then show ?thesis using unfolded by (simp add: terminate_def)
  next
    case False
    have "fst (case emit_fields base (field_groups d) st of
               Inl buf \<Rightarrow> string_too_short outlen buf
             | Inr st1 \<Rightarrow>
                 if base = NPY_FR_M \<or> base = NPY_FR_D then terminate st1
                 else (case add_time_zone local tzo st1 of
                         Inl buf \<Rightarrow> string_too_short outlen buf
                       | Inr st2 \<Rightarrow> terminate st2)) = None"
    proof (rule emit_tail_ok [OF base False])
      show "f_sublen st \<le> 127" using o t0 by (simp add: st_def)
      show "int (need base (field_groups d))
             + (if 5 \<le> unit_rank base then if local then 5 else 1 else 0) < f_sublen st"
        using room(2) [OF False] t20 by (simp add: st_def)
    qed
    then show ?thesis using unfolded False by simp
  qed
qed

text \<open>
  C1, as the code behaves. For a not-a-time year, and for the generic unit with any
  year, with every non-empty buffer and every capacity of at least 4 the call returns 0,
  but all four stores of the branch go to \<^verbatim>\<open>outstr[0]\<close>: the buffer holds the empty
  string, not \<^verbatim>\<open>"NaT"\<close>, and the bytes after the first are left as they were.
\<close>

theorem nat_output_is_empty_string:
  "make_iso_8601_datetime E (dts\<lparr>dts_year := NPY_DATETIME_NAT E\<rparr>) (c # bs) (4 + int n)
      local base tzoffset = (None, CHR 0x00 # bs)
   \<and> make_iso_8601_datetime E dts (c # bs) (4 + int n) local (Some NPY_FR_GENERIC) tzoffset
      = (None, CHR 0x00 # bs)
   \<and> c_string (CHR 0x00 # bs) = []
   \<and> c_string (CHR 0x00 # bs) \<noteq> ''NaT''"
  by (simp add: make_iso_8601_datetime_def c_string_def)

text \<open>
  C9: the length calculator returns the same length for the units Day and Week, and the
  formatter called with the unit Week returns what it returns with the unit Day, for
  every value, buffer, capacity, locality and offset.
\<close>

theorem week_collapses_to_day:
  "get_datetime_iso_8601_strlen E False (Some NPY_FR_D)
     = get_datetime_iso_8601_strlen E False (Some NPY_FR_W)
   \<and> make_iso_8601_datetime E dts outstr outlen local (Some NPY_FR_W) tzoffset
     = make_iso_8601_datetime E dts outstr outlen local (Some NPY_FR_D) tzoffset"
  by (simp add: get_datetime_iso_8601_strlen_def switch_len_cases make_iso_8601_datetime_def)

lemma strlen_no_failure:
  "fst (make_iso_8601_datetime E dts outstr (get_datetime_iso_8601_strlen E local (Some b))
          local (Some b) tzoffset) \<noteq> Some StringTooShort"
proof (cases "dts_year dts = NPY_DATETIME_NAT E \<or> b = NPY_FR_GENERIC")
  case True
  then show ?thesis
    using strlen_bounds [of E local b] by (auto simp: make_iso_8601_datetime_def)
next
  case False
  define outlen where "outlen = get_datetime_iso_8601_strlen E local (Some b)"
  define local1 where "local1 = (if (sint (dts_year dts) \<le> 1900 \<or> sint (dts_year dts) \<ge> 10000)
                         \<and> tzoffset = -1 then False else local)"
  define base where "base = (if b = NPY_FR_W then NPY_FR_D else b)"
  define local2 where "local2 = (if unit_rank base < 5 then False else local1)"
  have bg: "b \<noteq> NPY_FR_GENERIC" and yn: "dts_year dts \<noteq> NPY_DATETIME_NAT E"
    using False by auto
  have base_ne: "base \<noteq> NPY_FR_GENERIC" "base \<noteq> NPY_FR_W"
    using bg by (auto simp: base_def)
  have l2: "local2 \<Longrightarrow> local" by (auto simp: local2_def local1_def split: if_splits)
  have o22: "22 \<le> outlen" and o61: "outlen \<le> 61"
    using strlen_room(1) [OF bg, of E local] strlen_bounds [of E local b]
    by (simp_all add: outlen_def)
  have make: "make_iso_8601_datetime E dts outstr outlen local (Some b) tzoffset =
      (case to_local E dts local2 tzoffset of
         Inl e \<Rightarrow> (Some e, outstr)
       | Inr (d, tzo) \<Rightarrow> emit_datetime d outstr outlen local2 base tzo)"
    unfolding local2_def base_def local1_def using yn bg
    by (simp add: make_iso_8601_datetime_def)
  show ?thesis
  proof (cases "to_local E dts local2 tzoffset")
    case (Inl e)
    then have "e = LocaltimeError" by (rule to_local_error)
    then show ?thesis using Inl make by (simp add: outlen_def [symmetric])
  next
    case (Inr p)
    obtain d tzo where p: "p = (d, tzo)" by (cases p)
    have "fst (emit_datetime d outstr outlen local2 base tzo) = None"
    proof (rule emit_datetime_ok [OF base_ne])
      show "outlen \<le> 127" using o61 by simp
      show "21 < outlen" using o22 by simp
      assume "base \<noteq> NPY_FR_Y"
      then have "int (need base (field_groups d))
          + (if unit_rank base \<ge> 5 then (if local then 5 else 1) else 0) + 22 \<le> outlen"
        using strlen_room(2) [OF bg, where d = d and E = E and local = local] by (simp add: base_def outlen_def)
      then show "int (need base (field_groups d))
          + (if unit_rank base \<ge> 5 then (if local2 then 5 else 1) else 0) + 21 < outlen"
        using l2 by (auto split: if_splits)
    qed
    then show ?thesis using Inr p make by (simp add: outlen_def [symmetric])
  qed
qed

lemma emit_from_pos:
  "emit_from k cs st = Inr st' \<Longrightarrow>
     f_pos st' = f_pos st + k + length cs \<and> length (f_buf st') = length (f_buf st)"
proof (induction cs arbitrary: k st)
  case Nil
  then show ?case by auto
next
  case (Cons c cs)
  let ?st = "st\<lparr>f_buf := (f_buf st)[f_pos st + k := c]\<rparr>"
  from Cons.prems have "emit_from (Suc k) cs ?st = Inr st'"
    by (simp add: Let_def split: if_splits)
  from Cons.IH [OF this] show ?case by simp
qed

lemma emit_pos:
  "emit cs st = Inr st' \<Longrightarrow>
     f_pos st' = f_pos st + length cs \<and> length (f_buf st') = length (f_buf st)"
  using emit_from_pos [of 0 cs st st'] by (simp add: emit_def)

lemma emit_fields_pos:
  "emit_fields base gs st = Inr st' \<Longrightarrow>
     f_pos st' = f_pos st + need base gs \<and> length (f_buf st') = length (f_buf st)"
proof (induction gs arbitrary: st)
  case Nil
  then show ?case by simp
next
  case (Cons g gs)
  obtain u cs where g: "g = (u, cs)" by (cases g)
  from Cons.prems g obtain st1 where e: "emit cs st = Inr st1"
    by (auto split: sum.splits)
  note p = emit_pos [OF e]
  show ?case
  proof (cases "base = u")
    case True
    then show ?thesis using Cons.prems g e p by simp
  next
    case False
    then have "emit_fields base gs st1 = Inr st'" using Cons.prems g e by simp
    from Cons.IH [OF this] show ?thesis using p g False by simp
  qed
qed

lemma add_time_zone_pos:
  assumes "add_time_zone local tzo st = Inr st'"
  shows "f_pos st' = f_pos st + (if local then 5 else 1) \<and> length (f_buf st') = length (f_buf st)"
proof (cases local)
  case True
  from assms True obtain st1 sg where e1: "emit [sg] st = Inr st1"
    and e2: "emit [dig (((if tzo < 0 then - tzo else tzo) sdiv (10 * 60)) smod 10),
                   dig (((if tzo < 0 then - tzo else tzo) sdiv 60) smod 10),
                   dig ((((if tzo < 0 then - tzo else tzo) smod 60) sdiv 10) smod 10),
                   dig (((if tzo < 0 then - tzo else tzo) smod 60) smod 10)] st1 = Inr st'"
    by (auto simp: add_time_zone_def Let_def split: sum.splits)
  from emit_pos [OF e1] emit_pos [OF e2] True show ?thesis by simp
next
  case False
  then show ?thesis using assms emit_pos [of "[CHR ''Z'']" st st'] by (simp add: add_time_zone_def)
qed

lemma length_write_at: "length (write_at buf p cs) = length buf"
  by (induction cs arbitrary: buf p) auto

lemma length_snprintf: "length (fst (snprintf_04lld buf p sz y)) = length buf"
  by (simp add: snprintf_04lld_def Let_def length_write_at)

lemma c_string_terminated:
  "p < length buf \<Longrightarrow> length (c_string (buf[p := CHR 0x00])) \<le> p"
proof (induction buf arbitrary: p)
  case Nil
  then show ?case by simp
next
  case (Cons c cs)
  then show ?case by (cases p) (auto simp: c_string_def)
qed

lemma emit_datetime_length:
  assumes ok: "fst (emit_datetime d outstr outlen local base tzo) = None"
    and base: "base \<noteq> NPY_FR_GENERIC" "base \<noteq> NPY_FR_W"
    and B: "B = 20 + (if base = NPY_FR_Y then 0 else need base (field_groups d))
              + (if unit_rank base \<ge> 5 then (if local then 5 else 1) else 0)"
    and buf: "B < length outstr"
  shows "length (c_string (snd (emit_datetime d outstr outlen local base tzo))) \<le> B"
proof -
  obtain b0 tmplen where sn: "snprintf_04lld outstr 0 (to_char outlen) (dts_year d) = (b0, tmplen)"
    by (cases "snprintf_04lld outstr 0 (to_char outlen) (dts_year d)")
  have tl: "tmplen = int (length (fmt_04lld (dts_year d)))"
    using snprintf_04lld_snd [of outstr 0 "to_char outlen" "dts_year d"] sn by simp
  then have t0: "0 \<le> tmplen" and t20: "tmplen \<le> 20"
    using length_fmt_04lld [of "dts_year d"] by simp_all
  have lb: "length b0 = length outstr"
    using length_snprintf [of outstr 0 "to_char outlen" "dts_year d"] sn by simp
  define st where "st = \<lparr>f_buf = b0, f_pos = nat tmplen,
                          f_sublen = to_char (to_char outlen - tmplen)\<rparr>"
  have fits: "\<not> (tmplen < 0 \<or> tmplen \<ge> to_char outlen)"
    using ok sn by (auto simp: emit_datetime_def Let_def string_too_short_def)
  have unfolded: "emit_datetime d outstr outlen local base tzo =
        (if base = NPY_FR_Y then terminate st
         else (case emit_fields base (field_groups d) st of
                 Inl b \<Rightarrow> string_too_short outlen b
               | Inr st1 \<Rightarrow>
                   if base = NPY_FR_M \<or> base = NPY_FR_D then terminate st1
                   else (case add_time_zone local tzo st1 of
                           Inl b \<Rightarrow> string_too_short outlen b
                         | Inr st2 \<Rightarrow> terminate st2)))"
    using sn fits by (simp add: emit_datetime_def Let_def st_def)
  show ?thesis
  proof (cases "base = NPY_FR_Y")
    case True
    have p: "nat tmplen < length b0" "nat tmplen \<le> B" using t20 lb buf B True by simp_all
    from c_string_terminated [OF p(1)] p(2) show ?thesis
      using unfolded True by (simp add: terminate_def st_def)
  next
    case False
    from ok unfolded False obtain st1 where
      ef: "emit_fields base (field_groups d) st = Inr st1"
      by (auto simp: string_too_short_def split: sum.splits)
    note p1 = emit_fields_pos [OF ef]
    show ?thesis
    proof (cases "base = NPY_FR_M \<or> base = NPY_FR_D")
      case True
      have p: "f_pos st1 < length (f_buf st1)" "f_pos st1 \<le> B"
        using p1 t20 lb buf B False by (auto simp: st_def)
      from c_string_terminated [OF p(1)] p(2) show ?thesis
        using unfolded False True ef by (auto simp: terminate_def)
    next
      case F2: False
      then have r: "unit_rank base \<ge> 5" using base False by (cases base) auto
      from ok unfolded False F2 ef obtain st2 where
        tz: "add_time_zone local tzo st1 = Inr st2"
        by (auto simp: string_too_short_def split: sum.splits)
      note p2 = add_time_zone_pos [OF tz]
      have p: "f_pos st2 < length (f_buf st2)" "f_pos st2 \<le> B"
        using p1 p2 t20 lb buf B False r by (auto simp: st_def)
      from c_string_terminated [OF p(1)] p(2) show ?thesis
        using unfolded False F2 ef tz by (auto simp: terminate_def)
    qed
  qed
qed

lemma make_length:
  assumes ok: "fst (make_iso_8601_datetime E dts outstr outlen local (Some b) tzoffset) = None"
    and buf: "get_datetime_iso_8601_strlen E local (Some b) \<le> int (length outstr)"
  shows "int (length (c_string (snd (make_iso_8601_datetime E dts outstr outlen local (Some b)
                                        tzoffset)))) + 1
           \<le> get_datetime_iso_8601_strlen E local (Some b)"
proof (cases "dts_year dts = NPY_DATETIME_NAT E \<or> b = NPY_FR_GENERIC")
  case True
  obtain c cs where o: "outstr = c # cs"
    using buf strlen_bounds [of E local b] by (cases outstr) auto
  have "\<not> outlen < 4"
    using ok True by (auto simp: make_iso_8601_datetime_def string_too_short_def)
  then show ?thesis
    using True o strlen_bounds [of E local b]
    by (auto simp: make_iso_8601_datetime_def c_string_def)
next
  case False
  define local1 where "local1 = (if (sint (dts_year dts) \<le> 1900 \<or> sint (dts_year dts) \<ge> 10000)
                         \<and> tzoffset = -1 then False else local)"
  define base where "base = (if b = NPY_FR_W then NPY_FR_D else b)"
  define local2 where "local2 = (if unit_rank base < 5 then False else local1)"
  have bg: "b \<noteq> NPY_FR_GENERIC" and yn: "dts_year dts \<noteq> NPY_DATETIME_NAT E"
    using False by auto
  have base_ne: "base \<noteq> NPY_FR_GENERIC" "base \<noteq> NPY_FR_W"
    using bg by (auto simp: base_def)
  have l2: "local2 \<Longrightarrow> local" by (auto simp: local2_def local1_def split: if_splits)
  have make: "make_iso_8601_datetime E dts outstr outlen local (Some b) tzoffset =
      (case to_local E dts local2 tzoffset of
         Inl e \<Rightarrow> (Some e, outstr)
       | Inr (d, tzo) \<Rightarrow> emit_datetime d outstr outlen local2 base tzo)"
    unfolding local2_def base_def local1_def using yn bg
    by (simp add: make_iso_8601_datetime_def)
  from ok make obtain d tzo where tl: "to_local E dts local2 tzoffset = Inr (d, tzo)"
    by (cases "to_local E dts local2 tzoffset") auto
  have ok': "fst (emit_datetime d outstr outlen local2 base tzo) = None"
    using ok make tl by simp
  define B where "B = 20 + (if base = NPY_FR_Y then 0 else need base (field_groups d))
              + (if unit_rank base \<ge> 5 then (if local2 then 5 else 1) else 0)"
  have room: "int B + 2 \<le> get_datetime_iso_8601_strlen E local (Some b)"
  proof (cases "base = NPY_FR_Y")
    case True
    then show ?thesis using strlen_room(1) [OF bg, of E local] by (simp add: B_def)
  next
    case False
    then have "int (need base (field_groups d))
          + (if unit_rank base \<ge> 5 then (if local then 5 else 1) else 0) + 22
          \<le> get_datetime_iso_8601_strlen E local (Some b)"
      using strlen_room(2) [OF bg, where d = d and E = E and local = local]
      by (simp add: base_def)
    then show ?thesis using False l2 by (auto simp: B_def split: if_splits)
  qed
  have "B < length outstr" using room buf by simp
  from emit_datetime_length [OF ok' base_ne B_def this] show ?thesis
    using make tl room by simp
qed

lemma formatted_sample: "make_iso_8601_datetime example_env sample_dts (replicate 42 (CHR ''x'')) 42 False
             (Some NPY_FR_ms) (- 1)
         = (None, ''2016-01-02T12:30:45.123Z'' @ CHR 0x00 # replicate 17 (CHR ''x''))"
  by code_simp

lemma sample_strlen: "get_datetime_iso_8601_strlen example_env False (Some NPY_FR_ms) = 42"
  by (simp add: get_datetime_iso_8601_strlen_def switch_len_cases)

text \<open>
  C2: for every value, every locality flag and every concrete unit, a call of the
  formatter with the capacity the length calculator returns for that locality and unit
  never fails with "string too short"; and whenever a call returns 0 into a buffer of
  at least that many bytes, the string it leaves there, with its terminator, takes at
  most that many bytes.
\<close>

theorem strlen_is_enough:
  "fst (make_iso_8601_datetime E dts outstr (get_datetime_iso_8601_strlen E local (Some b))
          local (Some b) tzoffset) \<noteq> Some StringTooShort
   \<and> (fst (make_iso_8601_datetime E dts outstr outlen local (Some b) tzoffset) = None
        \<and> get_datetime_iso_8601_strlen E local (Some b) \<le> int (length outstr) \<longrightarrow>
      int (length (c_string (snd (make_iso_8601_datetime E dts outstr outlen local (Some b)
                                    tzoffset)))) + 1
        \<le> get_datetime_iso_8601_strlen E local (Some b))"
  using strlen_no_failure make_length by blast

theorem strlen_is_enough_witness:
  "fst (make_iso_8601_datetime example_env sample_dts (replicate 42 (CHR ''x'')) 42 False
             (Some NPY_FR_ms) (- 1)) = None
   \<and> get_datetime_iso_8601_strlen example_env False (Some NPY_FR_ms)
        \<le> int (length (replicate 42 (CHR ''x'')))
   \<and> int (length (c_string (snd (make_iso_8601_datetime example_env sample_dts
          (replicate 42 (CHR ''x'')) 42 False (Some NPY_FR_ms) (- 1))))) + 1 \<le> 42"
  using strlen_is_enough [of example_env sample_dts "replicate 42 (CHR ''x'')" False
          NPY_FR_ms "- 1" 42]
    formatted_sample sample_strlen
  by simp

section \<open>The parser: special values and whitespace\<close>

lemma frac_digits_numeral:
  "frac_digits (numeral k) v numdigits st =
     (if sublen st > 0 \<and> isdigit (cur st)
      then frac_digits (pred_numeral k) (v * 10 + digit_val (cur st)) (Suc numdigits) (adv 1 st)
      else frac_digits (pred_numeral k) (v * 10) numdigits st)"
  by (simp add: numeral_eq_Suc)

lemmas eval_defs = parse_iso_8601_datetime_def is_token_def parse_general_def scan_datetime_def
        isspace_def isdigit_def to_char_def cur_def adv_def first_char_def
        scan_month_def scan_day_def scan_hours_def scan_minutes_def scan_seconds_def
        two_digits_def digit_val_def parse_fraction_def parse_timezone_def trailing_def
        zero_dts_def cast_fails_def gregorian_leap_def gregorian_days_def tolower_def
        frac_digits_numeral

lemma tolower_simps:
  "tolower (CHR ''n'') = CHR ''n''" "tolower (CHR ''N'') = CHR ''n''"
  "tolower (CHR ''a'') = CHR ''a''" "tolower (CHR ''A'') = CHR ''a''"
  "tolower (CHR ''t'') = CHR ''t''" "tolower (CHR ''T'') = CHR ''t''"
  "tolower (CHR ''o'') = CHR ''o''" "tolower (CHR ''O'') = CHR ''o''"
  "tolower (CHR ''d'') = CHR ''d''" "tolower (CHR ''D'') = CHR ''d''"
  "tolower (CHR ''y'') = CHR ''y''" "tolower (CHR ''Y'') = CHR ''y''"
  by (simp_all add: tolower_def) code_simp+

lemma to_char_range: "- 128 \<le> to_char n \<and> to_char n \<le> 127"
  by (simp add: to_char_def)

lemma to_char_le: "0 \<le> n \<Longrightarrow> to_char n \<le> n"
proof -
  assume "0 \<le> n"
  have "(n + 128) mod 256 \<le> n + 128" by (rule zmod_le_nonneg_dividend) (use \<open>0 \<le> n\<close> in simp)
  then show ?thesis by (simp add: to_char_def)
qed

text \<open>
  C6: for every requested unit and casting rule, the empty string and every case variant
  of \<^verbatim>\<open>"NaT"\<close> parse successfully to the not-a-time year with the generic unit, not
  local, special. Neither the requested unit nor the casting predicate is consulted.
\<close>

theorem nat_token_parses:
  assumes "str = [] \<or> str = [a, b, c]"
    and "a = CHR ''n'' \<or> a = CHR ''N''"
    and "b = CHR ''a'' \<or> b = CHR ''A''"
    and "c = CHR ''t'' \<or> c = CHR ''T''"
  shows "parse_iso_8601_datetime E str unit casting =
     Inr \<lparr>out = zero_dts\<lparr>dts_year := NPY_DATETIME_NAT E\<rparr>, out_local = Some False,
          out_bestunit = NPY_FR_GENERIC, out_special = True\<rparr>"
  using assms by (auto simp: parse_iso_8601_datetime_def is_token_def tolower_simps)

theorem nat_token_parses_witness:
  "parse_iso_8601_datetime example_env ''nAt'' (Some NPY_FR_h) NPY_NO_CASTING =
     Inr \<lparr>out = zero_dts\<lparr>dts_year := - (2 ^ 63)\<rparr>, out_local = Some False,
          out_bestunit = NPY_FR_GENERIC, out_special = True\<rparr>
   \<and> parse_iso_8601_datetime example_env [] (Some NPY_FR_h) NPY_NO_CASTING =
     Inr \<lparr>out = zero_dts\<lparr>dts_year := - (2 ^ 63)\<rparr>, out_local = Some False,
          out_bestunit = NPY_FR_GENERIC, out_special = True\<rparr>"
  using nat_token_parses [of "''nAt''" "CHR ''n''" "CHR ''A''" "CHR ''t''" example_env
                             "Some NPY_FR_h" NPY_NO_CASTING]
        nat_token_parses [of "[]" "CHR ''n''" "CHR ''A''" "CHR ''t''" example_env
                             "Some NPY_FR_h" NPY_NO_CASTING]
  by (simp add: example_env_def)

lemma today_token:
  assumes "str = [a, b, c, d, e]"
    and "a = CHR ''t'' \<or> a = CHR ''T''"
    and "b = CHR ''o'' \<or> b = CHR ''O''"
    and "c = CHR ''d'' \<or> c = CHR ''D''"
    and "d = CHR ''a'' \<or> d = CHR ''A''"
    and "e = CHR ''y'' \<or> e = CHR ''Y''"
  shows "is_token ''today'' str \<and> \<not> is_token ''nat'' str \<and> str \<noteq> []"
  using assms by (auto simp: is_token_def tolower_simps)

text \<open>
  C8, amended: for every case variant of \<^verbatim>\<open>"today"\<close> the parse fails when the requested
  unit is the generic unit or finer than Day, when the host cannot give the local time,
  and when the casting predicate rejects (Day, requested unit, rule); in every other
  case it succeeds with the host's local year, month and day, the unit Day, not local,
  special.
\<close>

theorem today_parses:
  assumes "str = [a, b, c, d, e]"
    and "a = CHR ''t'' \<or> a = CHR ''T''"
    and "b = CHR ''o'' \<or> b = CHR ''O''"
    and "c = CHR ''d'' \<or> c = CHR ''D''"
    and "d = CHR ''a'' \<or> d = CHR ''A''"
    and "e = CHR ''y'' \<or> e = CHR ''Y''"
  shows "parse_iso_8601_datetime E str unit casting =
     (case unit of
        None \<Rightarrow>
          (case localtime_r E (time_now E) of
             None \<Rightarrow> Inl LocaltimeError
           | Some t \<Rightarrow> Inr (today_result t))
      | Some u \<Rightarrow>
          if u = NPY_FR_GENERIC then Inl GenericUnitsError
          else if unit_rank u > unit_rank NPY_FR_D then Inl TodayUnitsError
          else
            (case localtime_r E (time_now E) of
               None \<Rightarrow> Inl LocaltimeError
             | Some t \<Rightarrow>
                 if can_cast_datetime64_units E NPY_FR_D u casting then Inr (today_result t)
                 else Inl CastingError))"
  using today_token [OF assms]
  by (auto simp: parse_iso_8601_datetime_def parse_today_def cast_fails_def today_result_def
           split: option.splits)

theorem today_parses_witness:
  "parse_iso_8601_datetime example_env ''toDAY'' (Some NPY_FR_D) NPY_SAFE_CASTING =
     Inr \<lparr>out = zero_dts\<lparr>dts_year := 1970, dts_month := 1, dts_day := 1\<rparr>,
          out_local = Some False, out_bestunit = NPY_FR_D, out_special = True\<rparr>"
  using today_parses [of "''toDAY''" "CHR ''t''" "CHR ''o''" "CHR ''D''" "CHR ''A''" "CHR ''Y''"
                         example_env "Some NPY_FR_D" NPY_SAFE_CASTING]
  by (simp add: example_env_def today_result_def epoch_tm_def)

theorem today_casting_counterexample:
  "parse_iso_8601_datetime example_env ''today'' (Some NPY_FR_Y) NPY_SAFE_CASTING
     = Inl CastingError
   \<and> \<not> unit_rank NPY_FR_Y > unit_rank NPY_FR_D"
  by (simp add: parse_iso_8601_datetime_def is_token_def tolower_def parse_today_def
        cast_fails_def example_env_def)

text \<open>
  C4, as the code behaves: after a leading space the sign is skipped but not applied,
  because the year is negated on \<^verbatim>\<open>str[0] == '-'\<close>. \<^verbatim>\<open>" -0100"\<close> parses to the year 100,
  \<^verbatim>\<open>"-0100"\<close> to the year -100.
\<close>

theorem sign_after_whitespace_lost:
  "parse_iso_8601_datetime E '' -0100'' None casting =
     Inr \<lparr>out = zero_dts\<lparr>dts_year := 100\<rparr>, out_local = Some False,
          out_bestunit = NPY_FR_Y, out_special = False\<rparr>
   \<and> parse_iso_8601_datetime E ''-0100'' None casting =
     Inr \<lparr>out = zero_dts\<lparr>dts_year := - 100\<rparr>, out_local = Some False,
          out_bestunit = NPY_FR_Y, out_special = False\<rparr>"
  by (simp add: eval_defs)

lemma isspace_not_token_char:
  "isspace c \<Longrightarrow> tolower c = c \<and> c \<noteq> CHR ''n'' \<and> c \<noteq> CHR ''t'' \<and> c \<noteq> CHR ''-''
     \<and> c \<noteq> CHR ''y'' \<and> c \<noteq> CHR ''w'' \<and> \<not> isdigit c \<and> c \<noteq> CHR ''Z'' \<and> c \<noteq> CHR ''+''"
  by (auto simp: isspace_def tolower_def isdigit_def)

lemma not_token_space:
  "str = c # cs \<Longrightarrow> isspace c \<Longrightarrow>
     \<not> is_token ''nat'' str \<and> \<not> is_token ''today'' str \<and> \<not> is_token ''now'' str"
  using isspace_not_token_char [of c] by (auto simp: is_token_def)

lemma skip_space_nonpos: "n \<le> 0 \<Longrightarrow> skip_space xs p n = \<lparr>rest = xs, pos = p, sublen = n\<rparr>"
  by (cases xs) auto

lemma parse_year_nonpos: "n \<le> 0 \<Longrightarrow> parse_year y xs p n = (y, \<lparr>rest = xs, pos = p, sublen = n\<rparr>)"
  by (cases xs) auto

lemma skip_space_all:
  "list_all isspace xs \<Longrightarrow> 0 \<le> n \<Longrightarrow> n \<le> int (length xs) \<Longrightarrow> n \<le> 127 \<Longrightarrow>
     skip_space xs p n = \<lparr>rest = drop (nat n) xs, pos = p + nat n, sublen = 0\<rparr>"
proof (induction xs arbitrary: p n)
  case Nil
  then show ?case by simp
next
  case (Cons c cs)
  show ?case
  proof (cases "n = 0")
    case True
    then show ?thesis by simp
  next
    case False
    then have n: "0 < n" using Cons.prems by simp
    then have t: "to_char (n - 1) = n - 1" using Cons.prems by (simp add: to_char_id)
    have "skip_space cs (Suc p) (n - 1)
            = \<lparr>rest = drop (nat (n - 1)) cs, pos = Suc p + nat (n - 1), sublen = 0\<rparr>"
      by (rule Cons.IH) (use Cons.prems n in auto)
    moreover have "drop (nat n) (c # cs) = drop (nat (n - 1)) cs"
      using n by (cases "nat n") (auto simp: nat_diff_distrib')
    moreover have "Suc p + nat (n - 1) = p + nat n" using n by simp
    ultimately show ?thesis using Cons.prems n t by simp
  qed
qed

lemma cur_drop_space:
  "list_all isspace xs \<Longrightarrow> cur \<lparr>rest = drop k xs, pos = p, sublen = n\<rparr> \<noteq> CHR ''-''"
proof -
  assume a: "list_all isspace xs"
  show ?thesis
  proof (cases "drop k xs")
    case Nil
    then show ?thesis by (simp add: cur_def)
  next
    case (Cons c cs)
    then have "c \<in> set xs" by (metis in_set_dropD list.set_intros(1))
    then have "isspace c" using a by (simp add: list_all_iff)
    then show ?thesis using Cons isspace_not_token_char [of c] by (simp add: cur_def)
  qed
qed

lemma scan_whitespace:
  assumes ne: "str \<noteq> []" and ws: "list_all isspace str"
  shows "scan_datetime E str d0 = Inl (ParseError (nat (to_char (int (length str)))))"
proof -
  define n0 where "n0 = to_char (int (length str))"
  obtain c cs where str: "str = c # cs" using ne by (cases str) auto
  have c: "isspace c" using ws str by simp
  have fc: "first_char str \<noteq> CHR ''-''"
    using str isspace_not_token_char [OF c] by (simp add: first_char_def)
  show ?thesis
  proof (cases "n0 \<le> 0")
    case True
    have st0: "skip_space str 0 n0 = \<lparr>rest = str, pos = 0, sublen = n0\<rparr>"
      using True by (rule skip_space_nonpos)
    have cu: "cur \<lparr>rest = str, pos = 0, sublen = m\<rparr> \<noteq> CHR ''-''" for m
      using str isspace_not_token_char [OF c] by (simp add: cur_def)
    have py: "parse_year 0 str 0 n0 = (0, \<lparr>rest = str, pos = 0, sublen = n0\<rparr>)"
      using True by (rule parse_year_nonpos)
    show ?thesis using st0 cu py True fc
      by (simp add: scan_datetime_def n0_def [symmetric] Let_def)
  next
    case False
    then have n: "0 < n0" by simp
    have le: "n0 \<le> int (length str)" unfolding n0_def by (rule to_char_le) simp
    have st0: "skip_space str 0 n0 = \<lparr>rest = drop (nat n0) str, pos = 0 + nat n0, sublen = 0\<rparr>"
      by (rule skip_space_all [OF ws]) (use n le to_char_range [of "int (length str)"] in \<open>auto simp: n0_def\<close>)
    show ?thesis using st0 cur_drop_space [OF ws]
      by (simp add: scan_datetime_def n0_def [symmetric] Let_def)
  qed
qed

text \<open>
  C10, amended: for every non-empty string of whitespace only, the parse fails: with the
  generic-units error when the generic unit is requested, and otherwise with a parse
  error at the position the \<^verbatim>\<open>char\<close> counter lets the scan reach (the end of the string
  when it is shorter than 128 bytes). It is never the not-a-time value.
\<close>

theorem whitespace_only_fails:
  assumes "str \<noteq> []" and "list_all isspace str"
  shows "parse_iso_8601_datetime E str unit casting =
     (if unit = Some NPY_FR_GENERIC then Inl GenericUnitsError
      else Inl (ParseError (nat (to_char (int (length str))))))"
proof -
  obtain c cs where str: "str = c # cs" using assms(1) by (cases str) auto
  have c: "isspace c" using assms(2) str by simp
  show ?thesis
    using not_token_space [OF str c] assms(1) scan_whitespace [OF assms, of E zero_dts]
    by (simp add: parse_iso_8601_datetime_def parse_general_def)
qed

theorem whitespace_only_fails_witness:
  "''  '' \<noteq> [] \<and> list_all isspace ''  ''
   \<and> parse_iso_8601_datetime example_env ''  '' None NPY_SAFE_CASTING = Inl (ParseError 2)"
  using whitespace_only_fails [of "''  ''" example_env None NPY_SAFE_CASTING]
  by (simp add: isspace_def to_char_def)

theorem whitespace_generic_counterexample:
  "parse_iso_8601_datetime example_env '' '' (Some NPY_FR_GENERIC) NPY_SAFE_CASTING
     = Inl GenericUnitsError"
  by (simp add: parse_iso_8601_datetime_def is_token_def)

section \<open>The parser: the ranges of the fields\<close>

lemma digit_val_range: "isdigit c \<Longrightarrow> 0 \<le> digit_val c \<and> digit_val c \<le> 9"
  by (auto simp: isdigit_def digit_val_def)

lemma two_digits_SomeD:
  assumes "two_digits st = Some (v, st')"
  obtains c0 c1 cs where "rest st = c0 # c1 # cs" "isdigit c0" "isdigit c1" "sublen st \<ge> 2"
    "v = 10 * digit_val c0 + digit_val c1" "st' = adv 2 st"
  using assms by (auto simp: two_digits_def split: list.splits if_splits)

lemma two_digits_range:
  assumes "two_digits st = Some (v, st')"
  shows "0 \<le> v \<and> v \<le> 99"
proof -
  from assms obtain c0 c1 where "isdigit c0" "isdigit c1" "v = 10 * digit_val c0 + digit_val c1"
    by (rule two_digits_SomeD)
  then show ?thesis using digit_val_range [of c0] digit_val_range [of c1] by simp
qed

lemma parse_fraction_keeps:
  "parse_fraction d0 st = (u, d, st') \<Longrightarrow>
     dts_year d = dts_year d0 \<and> dts_month d = dts_month d0 \<and> dts_day d = dts_day d0
     \<and> dts_hour d = dts_hour d0 \<and> dts_min d = dts_min d0 \<and> dts_sec d = dts_sec d0
     \<and> unit_rank u \<ge> 8"
  by (auto simp: parse_fraction_def Let_def split: prod.splits if_splits)

lemma scan_seconds_fields:
  assumes "scan_seconds d0 st = Inr (l, u, d, st')"
  shows "dts_year d = dts_year d0 \<and> dts_month d = dts_month d0 \<and> dts_day d = dts_day d0
     \<and> dts_hour d = dts_hour d0 \<and> dts_min d = dts_min d0
     \<and> 0 \<le> dts_sec d \<and> dts_sec d \<le> 59 \<and> unit_rank u \<ge> 7"
proof -
  from assms obtain v st1 where t: "two_digits st = Some (v, st1)"
    by (auto simp: scan_seconds_def split: option.splits)
  have v: "0 \<le> v" "v < 60" using assms t by (auto simp: scan_seconds_def split: if_splits)
  show ?thesis
  proof (cases "sublen st1 > 0 \<and> cur st1 = CHR ''.''")
    case True
    obtain u' d' st2 where pf: "parse_fraction (d0\<lparr>dts_sec := v\<rparr>) (adv 1 st1) = (u', d', st2)"
      by (cases "parse_fraction (d0\<lparr>dts_sec := v\<rparr>) (adv 1 st1)") auto
    from assms t v True pf have "d = d'" "u = u'" by (auto simp: scan_seconds_def Let_def)
    then show ?thesis using parse_fraction_keeps [OF pf] v by simp
  next
    case False
    then show ?thesis using assms t v by (auto simp: scan_seconds_def Let_def split: if_splits)
  qed
qed

lemma scan_minutes_fields:
  assumes "scan_minutes d0 st = Inr (l, u, d, st')"
  shows "dts_year d = dts_year d0 \<and> dts_month d = dts_month d0 \<and> dts_day d = dts_day d0
     \<and> dts_hour d = dts_hour d0
     \<and> 0 \<le> dts_min d \<and> dts_min d \<le> 59
     \<and> (0 \<le> dts_sec d0 \<and> dts_sec d0 \<le> 59 \<longrightarrow> 0 \<le> dts_sec d \<and> dts_sec d \<le> 59)
     \<and> unit_rank u \<ge> 6"
proof -
  from assms obtain v st1 where t: "two_digits st = Some (v, st1)"
    by (auto simp: scan_minutes_def split: option.splits)
  have v: "0 \<le> v" "v < 60"
    using assms t two_digits_range [OF t] by (auto simp: scan_minutes_def split: if_splits)
  show ?thesis
  proof (cases "sublen st1 > 0 \<and> cur st1 = CHR '':''")
    case True
    then have "scan_seconds (d0\<lparr>dts_min := v\<rparr>) (adv 1 st1) = Inr (l, u, d, st')"
      using assms t v by (auto simp: scan_minutes_def Let_def split: if_splits)
    from scan_seconds_fields [OF this] show ?thesis using v by simp
  next
    case False
    then show ?thesis using assms t v by (auto simp: scan_minutes_def Let_def split: if_splits)
  qed
qed

lemma scan_hours_fields:
  assumes "scan_hours d0 st = Inr (l, u, d, st')"
  shows "dts_year d = dts_year d0 \<and> dts_month d = dts_month d0 \<and> dts_day d = dts_day d0
     \<and> 0 \<le> dts_hour d \<and> dts_hour d \<le> 23
     \<and> (0 \<le> dts_min d0 \<and> dts_min d0 \<le> 59 \<longrightarrow> 0 \<le> dts_min d \<and> dts_min d \<le> 59)
     \<and> (0 \<le> dts_sec d0 \<and> dts_sec d0 \<le> 59 \<longrightarrow> 0 \<le> dts_sec d \<and> dts_sec d \<le> 59)
     \<and> unit_rank u \<ge> 5"
proof -
  from assms obtain v st1 where t: "two_digits st = Some (v, st1)"
    by (auto simp: scan_hours_def split: option.splits)
  have v: "0 \<le> v" "v < 24"
    using assms t by (auto simp: scan_hours_def split: if_splits)
  show ?thesis
  proof (cases "sublen st1 > 0 \<and> cur st1 = CHR '':''")
    case True
    then have "scan_minutes (d0\<lparr>dts_hour := v\<rparr>) (adv 1 st1) = Inr (l, u, d, st')"
      using assms t v by (auto simp: scan_hours_def Let_def split: if_splits)
    from scan_minutes_fields [OF this] show ?thesis using v by simp
  next
    case False
    then show ?thesis using assms t v by (auto simp: scan_hours_def Let_def split: if_splits)
  qed
qed

lemma scan_day_fields:
  assumes "scan_day E leap d0 st = Inr (l, u, d, st')"
    and "1 \<le> dts_month d0" "dts_month d0 \<le> 12" "dts_hour d0 = 0" "dts_min d0 = 0" "dts_sec d0 = 0"
  shows "dts_year d = dts_year d0 \<and> fields_in_range (days_per_month_table E leap) u d \<and> unit_rank u \<ge> 4"
proof -
  from assms obtain v st1 where t: "two_digits st = Some (v, st1)"
    by (auto simp: scan_day_def split: option.splits)
  have v: "1 \<le> v" "v \<le> days_per_month_table E leap (dts_month d0 - 1)"
    using assms t by (auto simp: scan_day_def split: if_splits)
  show ?thesis
  proof (cases "sublen st1 = 0")
    case True
    then show ?thesis using assms t v
      by (auto simp: scan_day_def Let_def fields_in_range_def split: if_splits)
  next
    case False
    then have "scan_hours (d0\<lparr>dts_day := v\<rparr>) (adv 1 st1) = Inr (l, u, d, st')"
      using assms t v by (auto simp: scan_day_def Let_def split: if_splits)
    from scan_hours_fields [OF this] show ?thesis using v assms(2-)
      by (simp add: fields_in_range_def)
  qed
qed

lemma scan_month_fields:
  assumes "scan_month E leap d0 st = Inr (l, u, d, st')"
    and "dts_day d0 = 1" "dts_hour d0 = 0" "dts_min d0 = 0" "dts_sec d0 = 0"
  shows "dts_year d = dts_year d0 \<and> fields_in_range (days_per_month_table E leap) u d"
proof -
  from assms obtain v st1 where t: "two_digits st = Some (v, st1)"
    by (auto simp: scan_month_def split: option.splits)
  have v: "1 \<le> v" "v \<le> 12"
    using assms t by (auto simp: scan_month_def split: if_splits)
  show ?thesis
  proof (cases "sublen st1 = 0")
    case True
    then show ?thesis using assms t v
      by (auto simp: scan_month_def Let_def fields_in_range_def split: if_splits)
  next
    case False
    then have "scan_day E leap (d0\<lparr>dts_month := v\<rparr>) (adv 1 st1) = Inr (l, u, d, st')"
      using assms t v by (auto simp: scan_month_def Let_def split: if_splits)
    from scan_day_fields [OF this] show ?thesis using v assms(2-) by simp
  qed
qed

lemma scan_datetime_fields:
  assumes "scan_datetime E str zero_dts = Inr (l, u, d, st')"
  shows "fields_in_range (days_per_month_table E (is_leapyear E (dts_year d))) u d"
proof -
  define st0 where "st0 = skip_space str 0 (to_char (int (length str)))"
  define st1 where "st1 = (if cur st0 = CHR ''-'' then adv 1 st0 else st0)"
  obtain y0 st2 where py: "parse_year 0 (rest st1) (pos st1) (sublen st1) = (y0, st2)"
    by (cases "parse_year 0 (rest st1) (pos st1) (sublen st1)")
  define y where "y = (if first_char str = CHR ''-'' then - y0 else y0)"
  define d1 where "d1 = zero_dts\<lparr>dts_year := y\<rparr>"
  have s: "(if sublen st2 = 0 then Inr (Finish, NPY_FR_Y, d1, st2)
            else if cur st2 = CHR ''-''
            then (let st = adv 1 st2
                  in if sublen st = 0 then Inl (ParseError (pos st))
                     else scan_month E (is_leapyear E y) d1 st)
            else Inl (ParseError (pos st2))) = Inr (l, u, d, st')"
    using assms py unfolding st0_def st1_def y_def d1_def
    by (auto simp: scan_datetime_def Let_def split: if_splits)
  show ?thesis
  proof (cases "sublen st2 = 0")
    case True
    then show ?thesis using s by (auto simp: d1_def zero_dts_def fields_in_range_def)
  next
    case False
    then have "scan_month E (is_leapyear E y) d1 (adv 1 st2) = Inr (l, u, d, st')"
      using s by (auto simp: Let_def split: if_splits)
    from scan_month_fields [OF this] show ?thesis by (simp add: d1_def zero_dts_def)
  qed
qed

lemma general_path:
  assumes "parse_iso_8601_datetime E str unit casting = Inr r" "\<not> out_special r"
  shows "parse_general E str unit casting = Inr r"
  using assms
  by (auto simp: parse_iso_8601_datetime_def parse_today_def parse_now_def
           split: if_splits option.splits)

text \<open>
  The scan of a string that starts with the digits of a year, stage by stage: each
  stage whose two digits are in range hands over to the next one, at the cursor three
  bytes on.
\<close>

lemma scan_datetime_unfold:
  assumes "skip_space str 0 (to_char (int (length str))) = st0"
    and "st1 = (if cur st0 = CHR ''-'' then adv 1 st0 else st0)"
    and "parse_year 0 (rest st1) (pos st1) (sublen st1) = (y0, st2)"
    and "y = (if first_char str = CHR ''-'' then - y0 else y0)"
  shows "scan_datetime E str d0 =
     (if sublen st1 = 0 then Inl (ParseError (pos st1))
      else if sublen st2 = 0 then Inr (Finish, NPY_FR_Y, d0\<lparr>dts_year := y\<rparr>, st2)
      else if cur st2 = CHR ''-''
      then (if sublen (adv 1 st2) = 0 then Inl (ParseError (pos (adv 1 st2)))
            else scan_month E (is_leapyear E y) (d0\<lparr>dts_year := y\<rparr>) (adv 1 st2))
      else Inl (ParseError (pos st2)))"
  using assms by (auto simp: scan_datetime_def Let_def)

lemma parse_year_digits:
  "list_all isdigit ys \<Longrightarrow> \<not> isdigit c \<Longrightarrow> length (ys @ c # cs) \<le> 127 \<Longrightarrow>
     parse_year y (ys @ c # cs) p (int (length (ys @ c # cs)))
       = (foldl (\<lambda>a c. 10 * a + word_of_int (digit_val c)) y ys, cursor (c # cs) (p + length ys))"
proof (induction ys arbitrary: y p)
  case Nil
  then show ?case by (simp add: cursor_def)
next
  case (Cons a ys)
  have t: "to_char (int (length ys) + (1 + int (length cs))) = int (length ys) + (1 + int (length cs))"
    using Cons.prems(3) by (simp add: to_char_id)
  have "parse_year (10 * y + word_of_int (digit_val a)) (ys @ c # cs) (Suc p)
          (int (length (ys @ c # cs)))
        = (foldl (\<lambda>a c. 10 * a + word_of_int (digit_val c)) (10 * y + word_of_int (digit_val a)) ys,
           cursor (c # cs) (Suc p + length ys))"
    by (rule Cons.IH) (use Cons.prems in auto)
  then show ?case using Cons.prems by (simp add: to_char_id)
qed

lemma two_digits_cursor:
  "isdigit c0 \<Longrightarrow> isdigit c1 \<Longrightarrow> length (c0 # c1 # zs) \<le> 127 \<Longrightarrow>
     two_digits (cursor (c0 # c1 # zs) p) = Some (field_value c0 c1, cursor zs (p + 2))"
  by (simp add: two_digits_def cursor_def adv_def field_value_def to_char_id)

lemma adv_cursor:
  "length (c # zs) \<le> 127 \<Longrightarrow> adv 1 (cursor (c # zs) p) = cursor zs (p + 1)"
  by (simp add: cursor_def adv_def to_char_id)

lemma cursor_simps:
  "cur (cursor (c # zs) p) = c" "cur (cursor [] p) = CHR 0x00"
  "sublen (cursor s p) = int (length s)" "pos (cursor s p) = p" "rest (cursor s p) = s"
  by (simp_all add: cursor_def cur_def)

lemma digit_facts:
  "isdigit c \<Longrightarrow> \<not> isspace c \<and> c \<noteq> CHR ''-'' \<and> tolower c = c \<and> c \<noteq> CHR ''n'' \<and> c \<noteq> CHR ''t''"
  by (auto simp: isdigit_def isspace_def tolower_def)

lemma not_digit_facts: "\<not> isdigit (CHR ''-'')" "\<not> isdigit (CHR '':'')"
  "\<not> isdigit (CHR ''T'')" "\<not> isdigit (CHR '' '')"
  by (simp_all add: isdigit_def)

lemma scan_month_digits:
  assumes "isdigit m1" "isdigit m2" "1 \<le> field_value m1 m2" "field_value m1 m2 \<le> 12"
    and "length (m1 # m2 # CHR ''-'' # zs) \<le> 127" "zs \<noteq> []"
  shows "scan_month E leap d0 (cursor (m1 # m2 # CHR ''-'' # zs) p)
           = scan_day E leap (d0\<lparr>dts_month := field_value m1 m2\<rparr>) (cursor zs (p + 3))"
proof -
  have l: "length (CHR ''-'' # zs) \<le> 127" using assms(5) by simp
  show ?thesis
    using two_digits_cursor [OF assms(1,2,5), of p] assms(3,4,6) adv_cursor [OF l, of "p + 2"]
    by (simp add: scan_month_def cursor_simps Let_def numeral_3_eq_3)
qed

lemma scan_day_digits:
  assumes "isdigit c1" "isdigit c2" "1 \<le> field_value c1 c2"
    and "field_value c1 c2 \<le> days_per_month_table E leap (dts_month d0 - 1)"
    and "sep = CHR ''T'' \<or> sep = CHR '' ''"
    and "length (c1 # c2 # sep # zs) \<le> 127"
  shows "scan_day E leap d0 (cursor (c1 # c2 # sep # zs) p)
           = scan_hours (d0\<lparr>dts_day := field_value c1 c2\<rparr>) (cursor zs (p + 3))"
proof -
  have l: "length (sep # zs) \<le> 127" using assms(6) by simp
  show ?thesis
    using two_digits_cursor [OF assms(1,2,6), of p] assms(3,4,5) adv_cursor [OF l, of "p + 2"]
    by (auto simp: scan_day_def cursor_simps Let_def numeral_3_eq_3)
qed

lemma scan_hours_digits:
  assumes "isdigit c1" "isdigit c2" "field_value c1 c2 < 24"
    and "length (c1 # c2 # CHR '':'' # zs) \<le> 127" "zs \<noteq> []"
  shows "scan_hours d0 (cursor (c1 # c2 # CHR '':'' # zs) p)
           = scan_minutes (d0\<lparr>dts_hour := field_value c1 c2\<rparr>) (cursor zs (p + 3))"
proof -
  have l: "length (CHR '':'' # zs) \<le> 127" using assms(4) by simp
  have "0 \<le> field_value c1 c2"
    using digit_val_range [OF assms(1)] digit_val_range [OF assms(2)] by (simp add: field_value_def)
  then show ?thesis
    using two_digits_cursor [OF assms(1,2,4), of p] assms(3,5) adv_cursor [OF l, of "p + 2"]
    by (simp add: scan_hours_def cursor_simps Let_def numeral_3_eq_3)
qed

lemma scan_minutes_digits:
  assumes "isdigit c1" "isdigit c2" "field_value c1 c2 < 60" "0 \<le> dts_hour d0"
    and "length (c1 # c2 # CHR '':'' # zs) \<le> 127" "zs \<noteq> []"
  shows "scan_minutes d0 (cursor (c1 # c2 # CHR '':'' # zs) p)
           = scan_seconds (d0\<lparr>dts_min := field_value c1 c2\<rparr>) (cursor zs (p + 3))"
proof -
  have l: "length (CHR '':'' # zs) \<le> 127" using assms(5) by simp
  show ?thesis
    using two_digits_cursor [OF assms(1,2,5), of p] assms(3,4,6) adv_cursor [OF l, of "p + 2"]
    by (simp add: scan_minutes_def cursor_simps Let_def numeral_3_eq_3)
qed

lemma scan_error: "scan_datetime E str zero_dts = Inl e \<Longrightarrow> parse_general E str unit casting = Inl e"
  by (simp add: parse_general_def)

lemma field_value_nonneg: "isdigit c1 \<Longrightarrow> isdigit c2 \<Longrightarrow> 0 \<le> field_value c1 c2"
  using digit_val_range [of c1] digit_val_range [of c2] by (simp add: field_value_def)

lemma digit_not_letter:
  "isdigit c \<Longrightarrow> tolower c = c \<and> c \<notin> set ''nat'' \<and> c \<notin> set ''today'' \<and> c \<notin> set ''now''"
  by (auto simp: isdigit_def tolower_def)

lemma digits_not_special:
  assumes "c \<in> set str" "isdigit c" "unit \<noteq> Some NPY_FR_GENERIC"
  shows "parse_iso_8601_datetime E str unit casting = parse_general E str unit casting"
proof -
  have nt: "\<not> is_token tok str" if "c \<notin> set tok" for tok
  proof
    assume "is_token tok str"
    then have "map tolower str = tok" by (simp add: is_token_def)
    then have "tolower c \<in> set tok" using assms(1) by (metis image_eqI set_map)
    then show False using that digit_not_letter [OF assms(2)] by simp
  qed
  have "\<not> is_token ''nat'' str \<and> \<not> is_token ''today'' str \<and> \<not> is_token ''now'' str"
    using nt digit_not_letter [OF assms(2)] by blast
  moreover have "length str \<noteq> 0" using assms(1) by auto
  ultimately show ?thesis using assms(3) by (simp add: parse_iso_8601_datetime_def)
qed

lemma skip_space_cursor:
  "list_all isspace ws \<Longrightarrow> \<not> isspace c \<Longrightarrow> length (ws @ c # cs) \<le> 127 \<Longrightarrow>
     skip_space (ws @ c # cs) p (int (length (ws @ c # cs))) = cursor (c # cs) (p + length ws)"
proof (induction ws arbitrary: p)
  case Nil
  then show ?case by (simp add: cursor_def)
next
  case (Cons a ws)
  have "skip_space (ws @ c # cs) (Suc p) (int (length (ws @ c # cs)))
          = cursor (c # cs) (Suc p + length ws)"
    by (rule Cons.IH) (use Cons.prems in auto)
  then show ?case using Cons.prems by (simp add: to_char_id)
qed

lemma scan_datetime_digits:
  assumes yt: "year_text ws sg ys" and len: "length (ws @ sg @ ys @ CHR ''-'' # zs) \<le> 127"
    and nz: "zs \<noteq> []"
  shows "scan_datetime E (ws @ sg @ ys @ CHR ''-'' # zs) d0
           = scan_month E (is_leapyear E (scanned_year ws sg ys))
               (d0\<lparr>dts_year := scanned_year ws sg ys\<rparr>)
               (cursor zs (length (ws @ sg @ ys) + 1))"
proof -
  have ws: "list_all isspace ws" and sg: "sg = [] \<or> sg = ''-''"
    and ys: "list_all isdigit ys" "ys \<noteq> []"
    using yt by (simp_all add: year_text_def)
  obtain a as where ya: "ys = a # as" using ys(2) by (cases ys) auto
  have a: "isdigit a" using ys(1) ya by simp
  let ?tail = "ys @ CHR ''-'' # zs"
  let ?str = "ws @ sg @ ?tail"
  have tc: "to_char (int (length ?str)) = int (length ?str)"
    using len by (simp add: to_char_id)
  obtain b bs where sb: "sg @ ?tail = b # bs" and b: "\<not> isspace b"
    using sg ya digit_facts [OF a] by (auto simp: isspace_def)
  have sk: "skip_space ?str 0 (int (length ?str)) = cursor (sg @ ?tail) (length ws)"
    using skip_space_cursor [OF ws b, of bs 0] len sb by simp
  define st1 where "st1 = cursor ?tail (length (ws @ sg))"
  have s1: "st1 = (if cur (cursor (sg @ ?tail) (length ws)) = CHR ''-''
                   then adv 1 (cursor (sg @ ?tail) (length ws))
                   else cursor (sg @ ?tail) (length ws))"
  proof (cases "sg = []")
    case True
    then show ?thesis using ya digit_facts [OF a] by (simp add: st1_def cursor_simps)
  next
    case False
    then have m: "sg = ''-''" using sg by simp
    have l: "length (CHR ''-'' # ?tail) \<le> 127" using len m by simp
    show ?thesis using m adv_cursor [OF l, of "length ws"] by (simp add: st1_def cursor_simps)
  qed
  have lt: "length ?tail \<le> 127" using len by simp
  have py: "parse_year 0 (rest st1) (pos st1) (sublen st1)
              = (year_value ys, cursor (CHR ''-'' # zs) (length (ws @ sg @ ys)))"
    using parse_year_digits [OF ys(1) not_digit_facts(1) lt, of 0 "length (ws @ sg)"]
    by (simp add: year_value_def st1_def cursor_simps)
  have fc: "(first_char ?str = CHR ''-'') = (ws = [] \<and> sg = ''-'')"
  proof (cases ws)
    case Nil
    then show ?thesis using sg ya digit_facts [OF a] by (auto simp: first_char_def)
  next
    case (Cons w ws')
    then have "isspace w" using ws by simp
    then show ?thesis using Cons isspace_not_token_char [of w] by (simp add: first_char_def)
  qed
  have y: "scanned_year ws sg ys = (if first_char ?str = CHR ''-'' then - year_value ys else year_value ys)"
    using fc by (simp add: scanned_year_def)
  have l: "length (CHR ''-'' # zs) \<le> 127" using len by simp
  have a1: "skip_space ?str 0 (to_char (int (length ?str))) = cursor (sg @ ?tail) (length ws)"
    using tc sk by simp
  note u = scan_datetime_unfold [OF a1 s1 py y, of E d0]
  have n1: "sublen st1 \<noteq> 0" using ys(2) by (simp add: st1_def cursor_simps)
  have ad: "adv 1 (cursor (CHR ''-'' # zs) (length (ws @ sg @ ys)))
              = cursor zs (length (ws @ sg @ ys) + 1)"
    using adv_cursor [OF l] .
  show ?thesis unfolding u ad using n1 nz by (simp add: cursor_simps)
qed

lemma year_text_digit:
  "year_text ws sg ys \<Longrightarrow> \<exists>c. c \<in> set (ws @ sg @ ys @ zs) \<and> isdigit c"
  by (cases ys) (auto simp: year_text_def)

lemma whole_parse:
  assumes "year_text ws sg ys" "unit \<noteq> Some NPY_FR_GENERIC"
    and "scan_datetime E (ws @ sg @ ys @ zs) zero_dts = Inl e"
  shows "parse_iso_8601_datetime E (ws @ sg @ ys @ zs) unit casting = Inl e"
proof -
  from year_text_digit [OF assms(1), of zs] obtain c where
    "c \<in> set (ws @ sg @ ys @ zs)" "isdigit c" by blast
  from digits_not_special [OF this assms(2)] show ?thesis
    using scan_error [OF assms(3)] by simp
qed

lemma month_error:
  assumes yt: "year_text ws sg ys" and u: "unit \<noteq> Some NPY_FR_GENERIC"
    and m: "isdigit m1" "isdigit m2" "field_value m1 m2 < 1 \<or> 12 < field_value m1 m2"
    and len: "length (ws @ sg @ ys @ CHR ''-'' # m1 # m2 # zs) \<le> 127"
  shows "parse_iso_8601_datetime E (ws @ sg @ ys @ CHR ''-'' # m1 # m2 # zs) unit casting
           = Inl MonthOutOfRange"
proof -
  have l: "length (m1 # m2 # zs) \<le> 127" using len by simp
  have "scan_datetime E (ws @ sg @ ys @ CHR ''-'' # m1 # m2 # zs) zero_dts = Inl MonthOutOfRange"
    using scan_datetime_digits [OF yt len, of E zero_dts] two_digits_cursor [OF m(1,2) l] m(3)
    by (auto simp: scan_month_def)
  then show ?thesis by (rule whole_parse [OF yt u])
qed

lemma day_error:
  assumes yt: "year_text ws sg ys" and u: "unit \<noteq> Some NPY_FR_GENERIC"
    and m: "isdigit m1" "isdigit m2" "1 \<le> field_value m1 m2" "field_value m1 m2 \<le> 12"
    and d: "isdigit c1" "isdigit c2"
      "field_value c1 c2 < 1
       \<or> days_per_month_table E (is_leapyear E (scanned_year ws sg ys)) (field_value m1 m2 - 1)
           < field_value c1 c2"
    and len: "length (ws @ sg @ ys @ CHR ''-'' # m1 # m2 # CHR ''-'' # c1 # c2 # zs) \<le> 127"
  shows "parse_iso_8601_datetime E
           (ws @ sg @ ys @ CHR ''-'' # m1 # m2 # CHR ''-'' # c1 # c2 # zs)
           unit casting = Inl DayOutOfRange"
proof -
  have l1: "length (m1 # m2 # CHR ''-'' # c1 # c2 # zs) \<le> 127" using len by simp
  have l2: "length (c1 # c2 # zs) \<le> 127" using len by simp
  have "scan_datetime E (ws @ sg @ ys @ CHR ''-'' # m1 # m2 # CHR ''-'' # c1 # c2 # zs) zero_dts
          = Inl DayOutOfRange"
    using scan_datetime_digits [OF yt len, of E zero_dts]
      scan_month_digits [OF m l1, of E]
      two_digits_cursor [OF d(1,2) l2] d(3)
    by (auto simp: scan_day_def)
  then show ?thesis by (rule whole_parse [OF yt u])
qed

lemma hour_error:
  assumes yt: "year_text ws sg ys" and u: "unit \<noteq> Some NPY_FR_GENERIC"
    and m: "isdigit m1" "isdigit m2" "1 \<le> field_value m1 m2" "field_value m1 m2 \<le> 12"
    and d: "isdigit c1" "isdigit c2" "1 \<le> field_value c1 c2"
      "field_value c1 c2
         \<le> days_per_month_table E (is_leapyear E (scanned_year ws sg ys)) (field_value m1 m2 - 1)"
    and sep: "sep = CHR ''T'' \<or> sep = CHR '' ''"
    and h: "isdigit h1" "isdigit h2" "24 \<le> field_value h1 h2"
    and len: "length (ws @ sg @ ys @ CHR ''-'' # m1 # m2 # CHR ''-'' # c1 # c2 # sep # h1 # h2 # zs)
                \<le> 127"
  shows "parse_iso_8601_datetime E
           (ws @ sg @ ys @ CHR ''-'' # m1 # m2 # CHR ''-'' # c1 # c2 # sep # h1 # h2 # zs)
           unit casting = Inl HoursOutOfRange"
proof -
  have l1: "length (m1 # m2 # CHR ''-'' # c1 # c2 # sep # h1 # h2 # zs) \<le> 127" using len by simp
  have l2: "length (c1 # c2 # sep # h1 # h2 # zs) \<le> 127" using len by simp
  have l3: "length (h1 # h2 # zs) \<le> 127" using len by simp
  have "scan_datetime E
          (ws @ sg @ ys @ CHR ''-'' # m1 # m2 # CHR ''-'' # c1 # c2 # sep # h1 # h2 # zs)
          zero_dts = Inl HoursOutOfRange"
    using scan_datetime_digits [OF yt len, of E zero_dts]
      scan_month_digits [OF m l1, of E]
      scan_day_digits [OF d(1,2,3) _ sep l2, of E "is_leapyear E (scanned_year ws sg ys)"
         "zero_dts\<lparr>dts_year := scanned_year ws sg ys, dts_month := field_value m1 m2\<rparr>"] d(4)
      two_digits_cursor [OF h(1,2) l3] h(3)
    by (auto simp: scan_hours_def)
  then show ?thesis by (rule whole_parse [OF yt u])
qed

lemma minute_error:
  assumes yt: "year_text ws sg ys" and u: "unit \<noteq> Some NPY_FR_GENERIC"
    and m: "isdigit m1" "isdigit m2" "1 \<le> field_value m1 m2" "field_value m1 m2 \<le> 12"
    and d: "isdigit c1" "isdigit c2" "1 \<le> field_value c1 c2"
      "field_value c1 c2
         \<le> days_per_month_table E (is_leapyear E (scanned_year ws sg ys)) (field_value m1 m2 - 1)"
    and sep: "sep = CHR ''T'' \<or> sep = CHR '' ''"
    and h: "isdigit h1" "isdigit h2" "field_value h1 h2 < 24"
    and n: "isdigit n1" "isdigit n2" "60 \<le> field_value n1 n2"
    and len: "length (ws @ sg @ ys @ CHR ''-'' # m1 # m2 # CHR ''-'' # c1 # c2 # sep # h1 # h2
                        # CHR '':'' # n1 # n2 # zs) \<le> 127"
  shows "parse_iso_8601_datetime E
           (ws @ sg @ ys @ CHR ''-'' # m1 # m2 # CHR ''-'' # c1 # c2 # sep # h1 # h2
               # CHR '':'' # n1 # n2 # zs)
           unit casting = Inl MinutesOutOfRange"
proof -
  have l1: "length (m1 # m2 # CHR ''-'' # c1 # c2 # sep # h1 # h2 # CHR '':'' # n1 # n2 # zs) \<le> 127"
    using len by simp
  have l2: "length (c1 # c2 # sep # h1 # h2 # CHR '':'' # n1 # n2 # zs) \<le> 127" using len by simp
  have l3: "length (h1 # h2 # CHR '':'' # n1 # n2 # zs) \<le> 127" using len by simp
  have l4: "length (n1 # n2 # zs) \<le> 127" using len by simp
  have "scan_datetime E (ws @ sg @ ys @ CHR ''-'' # m1 # m2 # CHR ''-'' # c1 # c2 # sep # h1 # h2
               # CHR '':'' # n1 # n2 # zs) zero_dts = Inl MinutesOutOfRange"
    using scan_datetime_digits [OF yt len, of E zero_dts]
      scan_month_digits [OF m l1, of E]
      scan_day_digits [OF d(1,2,3) _ sep l2, of E "is_leapyear E (scanned_year ws sg ys)"
         "zero_dts\<lparr>dts_year := scanned_year ws sg ys, dts_month := field_value m1 m2\<rparr>"] d(4)
      scan_hours_digits [OF h l3]
      two_digits_cursor [OF n(1,2) l4] n(3)
    by (auto simp: scan_minutes_def)
  then show ?thesis by (rule whole_parse [OF yt u])
qed

lemma second_error:
  assumes yt: "year_text ws sg ys" and u: "unit \<noteq> Some NPY_FR_GENERIC"
    and m: "isdigit m1" "isdigit m2" "1 \<le> field_value m1 m2" "field_value m1 m2 \<le> 12"
    and d: "isdigit c1" "isdigit c2" "1 \<le> field_value c1 c2"
      "field_value c1 c2
         \<le> days_per_month_table E (is_leapyear E (scanned_year ws sg ys)) (field_value m1 m2 - 1)"
    and sep: "sep = CHR ''T'' \<or> sep = CHR '' ''"
    and h: "isdigit h1" "isdigit h2" "field_value h1 h2 < 24"
    and n: "isdigit n1" "isdigit n2" "field_value n1 n2 < 60"
    and s: "isdigit s1" "isdigit s2" "60 \<le> field_value s1 s2"
    and len: "length (ws @ sg @ ys @ CHR ''-'' # m1 # m2 # CHR ''-'' # c1 # c2 # sep # h1 # h2
                        # CHR '':'' # n1 # n2 # CHR '':'' # s1 # s2 # zs) \<le> 127"
  shows "parse_iso_8601_datetime E
           (ws @ sg @ ys @ CHR ''-'' # m1 # m2 # CHR ''-'' # c1 # c2 # sep # h1 # h2
               # CHR '':'' # n1 # n2 # CHR '':'' # s1 # s2 # zs)
           unit casting = Inl SecondsOutOfRange"
proof -
  have l1: "length (m1 # m2 # CHR ''-'' # c1 # c2 # sep # h1 # h2 # CHR '':'' # n1 # n2
                     # CHR '':'' # s1 # s2 # zs) \<le> 127"
    using len by simp
  have l2: "length (c1 # c2 # sep # h1 # h2 # CHR '':'' # n1 # n2 # CHR '':'' # s1 # s2 # zs) \<le> 127"
    using len by simp
  have l3: "length (h1 # h2 # CHR '':'' # n1 # n2 # CHR '':'' # s1 # s2 # zs) \<le> 127"
    using len by simp
  have l4: "length (n1 # n2 # CHR '':'' # s1 # s2 # zs) \<le> 127" using len by simp
  have l5: "length (s1 # s2 # zs) \<le> 127" using len by simp
  have h0: "0 \<le> field_value h1 h2" using field_value_nonneg [OF h(1,2)] .
  have "scan_datetime E (ws @ sg @ ys @ CHR ''-'' # m1 # m2 # CHR ''-'' # c1 # c2 # sep # h1 # h2
               # CHR '':'' # n1 # n2 # CHR '':'' # s1 # s2 # zs) zero_dts = Inl SecondsOutOfRange"
    using scan_datetime_digits [OF yt len, of E zero_dts]
      scan_month_digits [OF m l1, of E]
      scan_day_digits [OF d(1,2,3) _ sep l2, of E "is_leapyear E (scanned_year ws sg ys)"
         "zero_dts\<lparr>dts_year := scanned_year ws sg ys, dts_month := field_value m1 m2\<rparr>"] d(4)
      scan_hours_digits [OF h l3]
      scan_minutes_digits [OF n _ l4, of "zero_dts\<lparr>dts_year := scanned_year ws sg ys,
         dts_month := field_value m1 m2, dts_day := field_value c1 c2,
         dts_hour := field_value h1 h2\<rparr>"] h0
      two_digits_cursor [OF s(1,2) l5] s(3)
    by (auto simp: scan_seconds_def)
  then show ?thesis by (rule whole_parse [OF yt u])
qed

text \<open>
  C7, as the code behaves. Every successful parse on the general path comes from a scan
  whose struct, before any time-zone conversion, has its month in 1..12, its day in
  1..the length of that month for the leap status of the year (when the string has a
  day), its hour in 0..23 and its minute and second in 0..59; this is the struct the
  call returns when it ends at \<^verbatim>\<open>finish\<close> or at a time zone other than an offset. For
  a string made of whitespace \<open>ws\<close>, an optional sign \<open>sg\<close>, the digits \<open>ys\<close> of a
  year, the fields and a tail \<open>zs\<close>, with at most 127 bytes in all (so that the
  \<^verbatim>\<open>char\<close> counter holds the length) and a requested unit other than generic, the
  first two-digit field outside its range decides the result: the parse fails with the
  error of that field, whatever follows it. With the Gregorian calendar
  \<^verbatim>\<open>"2010-02-29"\<close> fails on the day and \<^verbatim>\<open>"2000-02-29"\<close> parses.

  The counter of the bytes left is declared \<^verbatim>\<open>char\<close> and set by \<^verbatim>\<open>sublen = len\<close>, so for
  a longer string it holds the length modulo 256 and the scan ends where it reaches
  zero: \<^verbatim>\<open>"2010-13-01"\<close> followed by 250 spaces (260 bytes, counter 4) is scanned as
  \<^verbatim>\<open>"2010"\<close> and the call succeeds with the year 2010, the month 13 never being read;
  followed by 127 spaces (137 bytes, counter -119) it is a parse error at position 0,
  not the error of the month. (With the generic unit requested the call fails before
  the scan, with the error of the generic unit.)
\<close>

theorem field_ranges_and_char_counter:
  "(parse_iso_8601_datetime E str unit casting = Inr r \<and> \<not> out_special r \<longrightarrow>
      (\<exists>l d st. scan_datetime E str zero_dts = Inr (l, out_bestunit r, d, st)
         \<and> fields_in_range (days_per_month_table E (is_leapyear E (dts_year d)))
              (out_bestunit r) d
         \<and> (l = Finish \<or> (sublen st \<noteq> 0 \<and> cur st \<noteq> CHR ''-'' \<and> cur st \<noteq> CHR ''+'')
              \<longrightarrow> out r = d)))
   \<and> (year_text ws sg ys \<and> length (ws @ sg @ ys) + 3 + length zs \<le> 127
        \<and> unit \<noteq> Some NPY_FR_GENERIC \<and> isdigit m1 \<and> isdigit m2
        \<and> (field_value m1 m2 < 1 \<or> 12 < field_value m1 m2) \<longrightarrow>
        parse_iso_8601_datetime E (ws @ sg @ ys @ CHR ''-'' # m1 # m2 # zs) unit casting
          = Inl MonthOutOfRange)
   \<and> (year_text ws sg ys \<and> length (ws @ sg @ ys) + 6 + length zs \<le> 127
        \<and> unit \<noteq> Some NPY_FR_GENERIC \<and> valid_month m1 m2
        \<and> isdigit c1 \<and> isdigit c2
        \<and> (field_value c1 c2 < 1
            \<or> month_length E (scanned_year ws sg ys) m1 m2 < field_value c1 c2) \<longrightarrow>
        parse_iso_8601_datetime E
          (ws @ sg @ ys @ CHR ''-'' # m1 # m2 # CHR ''-'' # c1 # c2 # zs)
          unit casting = Inl DayOutOfRange)
   \<and> (year_text ws sg ys \<and> length (ws @ sg @ ys) + 9 + length zs \<le> 127
        \<and> unit \<noteq> Some NPY_FR_GENERIC \<and> valid_month m1 m2
        \<and> valid_day E (scanned_year ws sg ys) m1 m2 c1 c2
        \<and> (sep = CHR ''T'' \<or> sep = CHR '' '')
        \<and> isdigit h1 \<and> isdigit h2 \<and> 24 \<le> field_value h1 h2 \<longrightarrow>
        parse_iso_8601_datetime E
          (ws @ sg @ ys @ CHR ''-'' # m1 # m2 # CHR ''-'' # c1 # c2 # sep # h1 # h2 # zs)
          unit casting = Inl HoursOutOfRange)
   \<and> (year_text ws sg ys \<and> length (ws @ sg @ ys) + 12 + length zs \<le> 127
        \<and> unit \<noteq> Some NPY_FR_GENERIC \<and> valid_month m1 m2
        \<and> valid_day E (scanned_year ws sg ys) m1 m2 c1 c2
        \<and> (sep = CHR ''T'' \<or> sep = CHR '' '')
        \<and> isdigit h1 \<and> isdigit h2 \<and> field_value h1 h2 < 24
        \<and> isdigit n1 \<and> isdigit n2 \<and> 60 \<le> field_value n1 n2 \<longrightarrow>
        parse_iso_8601_datetime E
          (ws @ sg @ ys @ CHR ''-'' # m1 # m2 # CHR ''-'' # c1 # c2 # sep # h1 # h2
              # CHR '':'' # n1 # n2 # zs)
          unit casting = Inl MinutesOutOfRange)
   \<and> (year_text ws sg ys \<and> length (ws @ sg @ ys) + 15 + length zs \<le> 127
        \<and> unit \<noteq> Some NPY_FR_GENERIC \<and> valid_month m1 m2
        \<and> valid_day E (scanned_year ws sg ys) m1 m2 c1 c2
        \<and> (sep = CHR ''T'' \<or> sep = CHR '' '')
        \<and> isdigit h1 \<and> isdigit h2 \<and> field_value h1 h2 < 24
        \<and> isdigit n1 \<and> isdigit n2 \<and> field_value n1 n2 < 60
        \<and> isdigit s1 \<and> isdigit s2 \<and> 60 \<le> field_value s1 s2 \<longrightarrow>
        parse_iso_8601_datetime E
          (ws @ sg @ ys @ CHR ''-'' # m1 # m2 # CHR ''-'' # c1 # c2 # sep # h1 # h2
              # CHR '':'' # n1 # n2 # CHR '':'' # s1 # s2 # zs)
          unit casting = Inl SecondsOutOfRange)
   \<and> parse_iso_8601_datetime
        (E\<lparr>is_leapyear := gregorian_leap, days_per_month_table := gregorian_days\<rparr>)
        ''2010-02-29'' None casting = Inl DayOutOfRange
   \<and> parse_iso_8601_datetime
        (E\<lparr>is_leapyear := gregorian_leap, days_per_month_table := gregorian_days\<rparr>)
        ''2000-02-29'' None casting =
       Inr \<lparr>out = zero_dts\<lparr>dts_year := 2000, dts_month := 2, dts_day := 29\<rparr>,
            out_local = Some False, out_bestunit = NPY_FR_D, out_special = False\<rparr>
   \<and> parse_iso_8601_datetime E (''2010-13-01'' @ replicate 250 (CHR '' '')) None casting =
       Inr \<lparr>out = zero_dts\<lparr>dts_year := 2010\<rparr>,
            out_local = Some False, out_bestunit = NPY_FR_Y, out_special = False\<rparr>
   \<and> parse_iso_8601_datetime E (''2010-13-01'' @ replicate 127 (CHR '' '')) None casting =
       Inl (ParseError 0)
   \<and> parse_iso_8601_datetime E ''2010-13-01'' (Some NPY_FR_GENERIC) casting
       = Inl GenericUnitsError"
proof -
  have a: "parse_iso_8601_datetime E str unit casting = Inr r \<and> \<not> out_special r \<longrightarrow>
      (\<exists>l d st. scan_datetime E str zero_dts = Inr (l, out_bestunit r, d, st)
         \<and> fields_in_range (days_per_month_table E (is_leapyear E (dts_year d)))
              (out_bestunit r) d
         \<and> (l = Finish \<or> (sublen st \<noteq> 0 \<and> cur st \<noteq> CHR ''-'' \<and> cur st \<noteq> CHR ''+'')
              \<longrightarrow> out r = d))"
  proof
    assume h: "parse_iso_8601_datetime E str unit casting = Inr r \<and> \<not> out_special r"
    then have g: "parse_general E str unit casting = Inr r" by (simp add: general_path)
    then obtain l u d st where sc: "scan_datetime E str zero_dts = Inr (l, u, d, st)"
      by (auto simp: parse_general_def split: sum.splits)
    have u: "u = out_bestunit r"
      using g sc by (auto simp: parse_general_def split: sum.splits label.splits if_splits)
    have o: "l = Finish \<or> (sublen st \<noteq> 0 \<and> cur st \<noteq> CHR ''-'' \<and> cur st \<noteq> CHR ''+'')
               \<longrightarrow> out r = d"
      using g sc
      by (auto simp: parse_general_def parse_timezone_def trailing_def Let_def
               split: sum.splits label.splits if_splits)
    show "\<exists>l d st. scan_datetime E str zero_dts = Inr (l, out_bestunit r, d, st)
         \<and> fields_in_range (days_per_month_table E (is_leapyear E (dts_year d)))
              (out_bestunit r) d
         \<and> (l = Finish \<or> (sublen st \<noteq> 0 \<and> cur st \<noteq> CHR ''-'' \<and> cur st \<noteq> CHR ''+'')
              \<longrightarrow> out r = d)"
      using sc u o scan_datetime_fields [OF sc] by auto
  qed
  have b: "year_text ws sg ys \<and> length (ws @ sg @ ys) + 3 + length zs \<le> 127
        \<and> unit \<noteq> Some NPY_FR_GENERIC \<and> isdigit m1 \<and> isdigit m2
        \<and> (field_value m1 m2 < 1 \<or> 12 < field_value m1 m2) \<longrightarrow>
        parse_iso_8601_datetime E (ws @ sg @ ys @ CHR ''-'' # m1 # m2 # zs) unit casting
          = Inl MonthOutOfRange"
    by (intro impI month_error) simp_all
  have c: "year_text ws sg ys \<and> length (ws @ sg @ ys) + 6 + length zs \<le> 127
        \<and> unit \<noteq> Some NPY_FR_GENERIC \<and> valid_month m1 m2
        \<and> isdigit c1 \<and> isdigit c2
        \<and> (field_value c1 c2 < 1
            \<or> month_length E (scanned_year ws sg ys) m1 m2 < field_value c1 c2) \<longrightarrow>
        parse_iso_8601_datetime E
          (ws @ sg @ ys @ CHR ''-'' # m1 # m2 # CHR ''-'' # c1 # c2 # zs)
          unit casting = Inl DayOutOfRange"
    by (intro impI day_error) (simp_all add: valid_month_def month_length_def)
  have d: "year_text ws sg ys \<and> length (ws @ sg @ ys) + 9 + length zs \<le> 127
        \<and> unit \<noteq> Some NPY_FR_GENERIC \<and> valid_month m1 m2
        \<and> valid_day E (scanned_year ws sg ys) m1 m2 c1 c2
        \<and> (sep = CHR ''T'' \<or> sep = CHR '' '')
        \<and> isdigit h1 \<and> isdigit h2 \<and> 24 \<le> field_value h1 h2 \<longrightarrow>
        parse_iso_8601_datetime E
          (ws @ sg @ ys @ CHR ''-'' # m1 # m2 # CHR ''-'' # c1 # c2 # sep # h1 # h2 # zs)
          unit casting = Inl HoursOutOfRange"
    by (intro impI hour_error) (simp_all add: valid_month_def valid_day_def month_length_def)
  have e: "year_text ws sg ys \<and> length (ws @ sg @ ys) + 12 + length zs \<le> 127
        \<and> unit \<noteq> Some NPY_FR_GENERIC \<and> valid_month m1 m2
        \<and> valid_day E (scanned_year ws sg ys) m1 m2 c1 c2
        \<and> (sep = CHR ''T'' \<or> sep = CHR '' '')
        \<and> isdigit h1 \<and> isdigit h2 \<and> field_value h1 h2 < 24
        \<and> isdigit n1 \<and> isdigit n2 \<and> 60 \<le> field_value n1 n2 \<longrightarrow>
        parse_iso_8601_datetime E
          (ws @ sg @ ys @ CHR ''-'' # m1 # m2 # CHR ''-'' # c1 # c2 # sep # h1 # h2
              # CHR '':'' # n1 # n2 # zs)
          unit casting = Inl MinutesOutOfRange"
    by (intro impI minute_error) (simp_all add: valid_month_def valid_day_def month_length_def)
  have f: "year_text ws sg ys \<and> length (ws @ sg @ ys) + 15 + length zs \<le> 127
        \<and> unit \<noteq> Some NPY_FR_GENERIC \<and> valid_month m1 m2
        \<and> valid_day E (scanned_year ws sg ys) m1 m2 c1 c2
        \<and> (sep = CHR ''T'' \<or> sep = CHR '' '')
        \<and> isdigit h1 \<and> isdigit h2 \<and> field_value h1 h2 < 24
        \<and> isdigit n1 \<and> isdigit n2 \<and> field_value n1 n2 < 60
        \<and> isdigit s1 \<and> isdigit s2 \<and> 60 \<le> field_value s1 s2 \<longrightarrow>
        parse_iso_8601_datetime E
          (ws @ sg @ ys @ CHR ''-'' # m1 # m2 # CHR ''-'' # c1 # c2 # sep # h1 # h2
              # CHR '':'' # n1 # n2 # CHR '':'' # s1 # s2 # zs)
          unit casting = Inl SecondsOutOfRange"
    by (intro impI second_error) (simp_all add: valid_month_def valid_day_def month_length_def)
  have g: "parse_iso_8601_datetime
        (E\<lparr>is_leapyear := gregorian_leap, days_per_month_table := gregorian_days\<rparr>)
        ''2010-02-29'' None casting = Inl DayOutOfRange"
    by (simp add: eval_defs)
  have h: "parse_iso_8601_datetime
        (E\<lparr>is_leapyear := gregorian_leap, days_per_month_table := gregorian_days\<rparr>)
        ''2000-02-29'' None casting =
       Inr \<lparr>out = zero_dts\<lparr>dts_year := 2000, dts_month := 2, dts_day := 29\<rparr>,
            out_local = Some False, out_bestunit = NPY_FR_D, out_special = False\<rparr>"
    by (simp add: eval_defs)
  have i: "parse_iso_8601_datetime E (''2010-13-01'' @ replicate 250 (CHR '' '')) None casting =
       Inr \<lparr>out = zero_dts\<lparr>dts_year := 2010\<rparr>,
            out_local = Some False, out_bestunit = NPY_FR_Y, out_special = False\<rparr>"
    by (simp add: eval_defs)
  have j: "parse_iso_8601_datetime E (''2010-13-01'' @ replicate 127 (CHR '' '')) None casting =
       Inl (ParseError 0)"
    by (simp add: eval_defs)
  have k: "parse_iso_8601_datetime E ''2010-13-01'' (Some NPY_FR_GENERIC) casting
       = Inl GenericUnitsError"
    by (simp add: eval_defs)
  show ?thesis using a b c d e f g h i j k by blast
qed

theorem field_ranges_and_char_counter_witness:
  "(\<exists>l d st. scan_datetime example_env ''2000-02-29'' zero_dts = Inr (l, NPY_FR_D, d, st)
         \<and> fields_in_range (days_per_month_table example_env (is_leapyear example_env (dts_year d)))
              NPY_FR_D d
         \<and> zero_dts\<lparr>dts_year := 2000, dts_month := 2, dts_day := 29\<rparr> = d)
   \<and> parse_iso_8601_datetime example_env ''  2010-13-01'' None NPY_SAFE_CASTING
       = Inl MonthOutOfRange
   \<and> parse_iso_8601_datetime example_env ''-2010-04-31 12:00'' None NPY_SAFE_CASTING
       = Inl DayOutOfRange
   \<and> parse_iso_8601_datetime example_env ''2010-02-28T24:00'' None NPY_SAFE_CASTING
       = Inl HoursOutOfRange
   \<and> parse_iso_8601_datetime example_env ''2010-02-28T23:60'' None NPY_SAFE_CASTING
       = Inl MinutesOutOfRange
   \<and> parse_iso_8601_datetime example_env ''2010-02-28T23:59:60Z'' None NPY_SAFE_CASTING
       = Inl SecondsOutOfRange"
proof -
  have p: "parse_iso_8601_datetime example_env ''2000-02-29'' None NPY_SAFE_CASTING =
       Inr \<lparr>out = zero_dts\<lparr>dts_year := 2000, dts_month := 2, dts_day := 29\<rparr>,
            out_local = Some False, out_bestunit = NPY_FR_D, out_special = False\<rparr>"
    by (simp add: eval_defs example_env_def)
  have s: "scan_datetime example_env ''2000-02-29'' zero_dts
             = Inr (Finish, NPY_FR_D, zero_dts\<lparr>dts_year := 2000, dts_month := 2, dts_day := 29\<rparr>,
                    \<lparr>rest = [], pos = 10, sublen = 0\<rparr>)"
    by (simp add: eval_defs example_env_def)
  have v: "field_value (CHR ''1'') (CHR ''3'') = 13" "field_value (CHR ''0'') (CHR ''4'') = 4"
    "field_value (CHR ''3'') (CHR ''1'') = 31" "field_value (CHR ''0'') (CHR ''2'') = 2"
    "field_value (CHR ''2'') (CHR ''8'') = 28" "field_value (CHR ''2'') (CHR ''4'') = 24"
    "field_value (CHR ''2'') (CHR ''3'') = 23" "field_value (CHR ''6'') (CHR ''0'') = 60"
    "field_value (CHR ''5'') (CHR ''9'') = 59"
    by (simp_all add: field_value_def digit_val_def)
  have y: "scanned_year [] [] ''2010'' = 2010" "scanned_year [] ''-'' ''2010'' = - 2010"
    by (simp_all add: scanned_year_def year_value_def digit_val_def)
  have m: "month_length example_env (- 2010) (CHR ''0'') (CHR ''4'') = 30"
    "month_length example_env 2010 (CHR ''0'') (CHR ''2'') = 28"
    by (simp_all add: month_length_def v example_env_def gregorian_days_def gregorian_leap_def)
  have t: "year_text [] [] ''2010''" "year_text ''  '' [] ''2010''" "year_text [] ''-'' ''2010''"
    by (simp_all add: year_text_def isdigit_def isspace_def)
  show ?thesis
    using
      field_ranges_and_char_counter [where E = example_env and str = "''2000-02-29''"
        and unit = None and casting = NPY_SAFE_CASTING
        and r = "\<lparr>out = zero_dts\<lparr>dts_year := 2000, dts_month := 2, dts_day := 29\<rparr>,
            out_local = Some False, out_bestunit = NPY_FR_D, out_special = False\<rparr>"
        and ws = "''  ''" and sg = "[]"
        and ys = "''2010''" and zs = "''-01''" and ?m1.0 = "CHR ''1''" and ?m2.0 = "CHR ''3''"]
      field_ranges_and_char_counter [where E = example_env and unit = None
        and casting = NPY_SAFE_CASTING and ws = "[]" and sg = "''-''"
        and ys = "''2010''" and zs = "'' 12:00''" and ?m1.0 = "CHR ''0''" and ?m2.0 = "CHR ''4''"
        and ?c1.0 = "CHR ''3''" and ?c2.0 = "CHR ''1''"]
      field_ranges_and_char_counter [where E = example_env and unit = None
        and casting = NPY_SAFE_CASTING and ws = "[]" and sg = "[]"
        and ys = "''2010''" and zs = "'':00''" and ?m1.0 = "CHR ''0''" and ?m2.0 = "CHR ''2''"
        and ?c1.0 = "CHR ''2''" and ?c2.0 = "CHR ''8''" and sep = "CHR ''T''"
        and ?h1.0 = "CHR ''2''" and ?h2.0 = "CHR ''4''"]
      field_ranges_and_char_counter [where E = example_env and unit = None
        and casting = NPY_SAFE_CASTING and ws = "[]" and sg = "[]"
        and ys = "''2010''" and zs = "[]" and ?m1.0 = "CHR ''0''" and ?m2.0 = "CHR ''2''"
        and ?c1.0 = "CHR ''2''" and ?c2.0 = "CHR ''8''" and sep = "CHR ''T''"
        and ?h1.0 = "CHR ''2''" and ?h2.0 = "CHR ''3''"
        and ?n1.0 = "CHR ''6''" and ?n2.0 = "CHR ''0''"]
      field_ranges_and_char_counter [where E = example_env and unit = None
        and casting = NPY_SAFE_CASTING and ws = "[]" and sg = "[]"
        and ys = "''2010''" and zs = "''Z''" and ?m1.0 = "CHR ''0''" and ?m2.0 = "CHR ''2''"
        and ?c1.0 = "CHR ''2''" and ?c2.0 = "CHR ''8''" and sep = "CHR ''T''"
        and ?h1.0 = "CHR ''2''" and ?h2.0 = "CHR ''3''"
        and ?n1.0 = "CHR ''5''" and ?n2.0 = "CHR ''9''"
        and ?s1.0 = "CHR ''6''" and ?s2.0 = "CHR ''0''"]
      p s v y m t
    by (simp add: isdigit_def valid_month_def valid_day_def)
qed

section \<open>The parser: the digits of the fraction\<close>

lemma window_digits_0_iff:
  "0 \<le> sublen st \<Longrightarrow> window_digits st = 0 \<longleftrightarrow> \<not> (sublen st > 0 \<and> isdigit (cur st))"
  by (cases "rest st"; cases "nat (sublen st)")
     (auto simp: window_digits_def cur_def isdigit_def)

lemma window_digits_adv:
  assumes "0 < sublen st" "sublen st \<le> 127" "isdigit (cur st)"
  shows "window_digits st = Suc (window_digits (adv 1 st))"
proof -
  from assms obtain c cs where r: "rest st = c # cs" "isdigit c"
    by (cases "rest st") (auto simp: cur_def isdigit_def)
  obtain n where n: "nat (sublen st) = Suc n" using assms(1) by (cases "nat (sublen st)") auto
  then have "nat (sublen st - 1) = n" by simp
  then show ?thesis using r n assms
    by (simp add: window_digits_def adv_def to_char_id drop_Suc)
qed

lemma frac_digits_count:
  "0 \<le> sublen st \<Longrightarrow> sublen st \<le> 127 \<Longrightarrow> frac_digits i v nd st = (v', nd', st') \<Longrightarrow>
     nd' = nd + min i (window_digits st)
     \<and> window_digits st' = window_digits st - min i (window_digits st)
     \<and> 0 \<le> sublen st' \<and> sublen st' \<le> 127"
proof (induction i arbitrary: v nd st)
  case 0
  then show ?case by simp
next
  case (Suc i)
  show ?case
  proof (cases "sublen st > 0 \<and> isdigit (cur st)")
    case True
    then have w: "window_digits st = Suc (window_digits (adv 1 st))"
      using Suc.prems(2) by (simp add: window_digits_adv)
    have s: "sublen (adv 1 st) = sublen st - 1" using True Suc.prems(2)
      by (simp add: adv_def to_char_id)
    have "frac_digits i (v * 10 + digit_val (cur st)) (Suc nd) (adv 1 st) = (v', nd', st')"
      using Suc.prems(3) True by simp
    from Suc.IH [OF _ _ this] s True Suc.prems(2) w show ?thesis by auto
  next
    case False
    then have w: "window_digits st = 0" using Suc.prems(1) by (simp add: window_digits_0_iff)
    have "frac_digits i (v * 10) nd st = (v', nd', st')" using Suc.prems(3) False by auto
    from Suc.IH [OF Suc.prems(1,2) this] w show ?thesis by simp
  qed
qed

lemma parse_fraction_unit:
  assumes "0 \<le> sublen st" "sublen st \<le> 127"
  shows "fst (parse_fraction d0 st) = unit_of_digit_count (window_digits st)"
proof -
  obtain v1 n1 st1 where f1: "frac_digits 6 (dts_us d0) 0 st = (v1, n1, st1)"
    by (cases "frac_digits 6 (dts_us d0) 0 st") auto
  from frac_digits_count [OF assms f1] have
    c1: "n1 = min 6 (window_digits st)" "window_digits st1 = window_digits st - min 6 (window_digits st)"
       "0 \<le> sublen st1" "sublen st1 \<le> 127" by auto
  show ?thesis
  proof (cases "sublen st1 = 0 \<or> \<not> isdigit (cur st1)")
    case True
    then have "window_digits st1 = 0" using c1(3) window_digits_0_iff [of st1] by auto
    then have "window_digits st \<le> 6" using c1(2) by auto
    then show ?thesis using f1 True c1(1)
      by (auto simp: parse_fraction_def unit_of_digit_count_def Let_def)
  next
    case False
    then have "window_digits st1 \<noteq> 0" using c1(3) window_digits_0_iff [of st1] by auto
    then have k6: "window_digits st > 6" using c1(2) by auto
    obtain v2 n2 st2 where f2: "frac_digits 6 (dts_ps (d0\<lparr>dts_us := v1\<rparr>)) 0 st1 = (v2, n2, st2)"
      by (cases "frac_digits 6 (dts_ps (d0\<lparr>dts_us := v1\<rparr>)) 0 st1") auto
    from frac_digits_count [OF c1(3,4) f2] have
      c2: "n2 = min 6 (window_digits st1)"
        "window_digits st2 = window_digits st1 - min 6 (window_digits st1)"
        "0 \<le> sublen st2" "sublen st2 \<le> 127" by auto
    show ?thesis
    proof (cases "sublen st2 = 0 \<or> \<not> isdigit (cur st2)")
      case True
      then have "window_digits st2 = 0" using c2(3) window_digits_0_iff [of st2] by auto
      then have "window_digits st \<le> 12" using c2(2) c1(2) by auto
      then show ?thesis using f1 f2 False True c1(2) c2(1) k6
        by (auto simp: parse_fraction_def unit_of_digit_count_def Let_def)
    next
      case F2: False
      then have "window_digits st2 \<noteq> 0" using c2(3) window_digits_0_iff [of st2] by auto
      then have k12: "window_digits st > 12" using c2(2) c1(2) by auto
      obtain v3 n3 st3 where
        f3: "frac_digits 6 (dts_as (d0\<lparr>dts_us := v1, dts_ps := v2\<rparr>)) 0 st2 = (v3, n3, st3)"
        by (cases "frac_digits 6 (dts_as (d0\<lparr>dts_us := v1, dts_ps := v2\<rparr>)) 0 st2") auto
      from frac_digits_count [OF c2(3,4) f3] have
        c3: "n3 = min 6 (window_digits st2)" by auto
      have "window_digits st2 = window_digits st - 12" using c1(2) c2(2) k12 by auto
      then show ?thesis using f1 f2 f3 False F2 c3 k12
        by (auto simp: parse_fraction_def unit_of_digit_count_def Let_def)
    qed
  qed
qed

section \<open>The parser: a trailing space\<close>

lemma space_facts:
  "\<not> isdigit (CHR '' '')" "isspace (CHR '' '')"
  by (simp_all add: isdigit_def isspace_def)

lemma adv_app:
  assumes "in_step st" "k \<le> length (rest st)"
  shows "adv k (append_space st) = append_space (adv k st)" and "in_step (adv k st)"
    and "rest (adv k st) = drop k (rest st)"
  using assms by (auto simp: adv_def append_space_def in_step_def to_char_id)

lemma cur_app: "rest st \<noteq> [] \<Longrightarrow> cur (append_space st) = cur st"
  by (cases "rest st") (simp_all add: cur_def append_space_def)

lemma cur_app_end: "rest st = [] \<Longrightarrow> cur (append_space st) = CHR '' ''"
  by (simp add: cur_def append_space_def)

lemma sublen_app: "sublen (append_space st) = sublen st + 1"
  by (simp add: append_space_def)

lemma in_step_sublen:
  "in_step st \<Longrightarrow> (sublen st = 0 \<longleftrightarrow> rest st = []) \<and> (sublen st > 0 \<longleftrightarrow> rest st \<noteq> [])
     \<and> 0 \<le> sublen st"
  by (auto simp: in_step_def)

lemma next_is_app:
  assumes "in_step st" "c \<noteq> CHR '' ''"
  shows "(sublen (append_space st) > 0 \<and> cur (append_space st) = c)
           \<longleftrightarrow> (sublen st > 0 \<and> cur st = c)"
proof (cases "rest st")
  case Nil
  then show ?thesis using assms by (simp add: in_step_def cur_def append_space_def)
next
  case (Cons a as)
  then show ?thesis using assms by (simp add: in_step_def cur_def append_space_def)
qed

lemma two_digits_app:
  assumes "in_step st" "two_digits st = Some (v, st')"
  shows "two_digits (append_space st) = Some (v, append_space st')" and "in_step st'"
    and "rest st' = [] \<Longrightarrow> rest st \<noteq> [] \<and> isdigit (last (rest st))"
    and "\<exists>k. rest st' = drop k (rest st) \<and> k < length (rest st) + 1 \<and> 0 < k"
proof -
  from assms(2) obtain c0 c1 cs where
    r: "rest st = c0 # c1 # cs" "isdigit c0" "isdigit c1" "sublen st \<ge> 2"
      "v = 10 * digit_val c0 + digit_val c1" "st' = adv 2 st"
    by (rule two_digits_SomeD)
  have k: "2 \<le> length (rest st)" using r by simp
  show "two_digits (append_space st) = Some (v, append_space st')"
    using r adv_app(1) [OF assms(1) k]
    by (simp add: two_digits_def append_space_def)
  show "in_step st'" using r adv_app(2) [OF assms(1) k] by simp
  show "rest st' = [] \<Longrightarrow> rest st \<noteq> [] \<and> isdigit (last (rest st))"
    using r by (simp add: adv_def)
  show "\<exists>k. rest st' = drop k (rest st) \<and> k < length (rest st) + 1 \<and> 0 < k"
    using r by (intro exI [of _ 2]) (simp add: adv_def)
qed

lemma frac_digits_app:
  "in_step st \<Longrightarrow> frac_digits i v nd st = (v', nd', st') \<Longrightarrow>
     frac_digits i v nd (append_space st) = (v', nd', append_space st') \<and> in_step st'
     \<and> (\<exists>k. rest st' = drop k (rest st) \<and> k \<le> length (rest st)
             \<and> (0 < k \<longrightarrow> isdigit (rest st ! (k - 1))))"
proof (induction i arbitrary: v nd st)
  case 0
  have "rest st = drop 0 (rest st) \<and> 0 \<le> length (rest st)
          \<and> ((0::nat) < 0 \<longrightarrow> isdigit (rest st ! (0 - 1)))" by simp
  then have "\<exists>k. rest st = drop k (rest st) \<and> k \<le> length (rest st)
             \<and> (0 < k \<longrightarrow> isdigit (rest st ! (k - 1)))" by blast
  then show ?case using 0 by auto
next
  case (Suc i)
  show ?case
  proof (cases "sublen st > 0 \<and> isdigit (cur st)")
    case True
    then have ne: "rest st \<noteq> []" using Suc.prems(1) by (auto simp: in_step_def)
    then have k: "1 \<le> length (rest st)" by (cases "rest st") auto
    have c: "cur (append_space st) = cur st" using ne by (rule cur_app)
    have a: "adv 1 (append_space st) = append_space (adv 1 st)" "in_step (adv 1 st)"
      "rest (adv 1 st) = drop 1 (rest st)"
      using adv_app [OF Suc.prems(1) k] by simp_all
    have f: "frac_digits i (v * 10 + digit_val (cur st)) (Suc nd) (adv 1 st) = (v', nd', st')"
      using Suc.prems(2) True by simp
    from Suc.IH [OF a(2) f] obtain k' where ih:
      "frac_digits i (v * 10 + digit_val (cur st)) (Suc nd) (append_space (adv 1 st))
         = (v', nd', append_space st')" "in_step st'"
      "rest st' = drop k' (rest (adv 1 st))" "k' \<le> length (rest (adv 1 st))"
      "0 < k' \<longrightarrow> isdigit (rest (adv 1 st) ! (k' - 1))" by blast
    have d0: "isdigit (rest st ! 0)" using True ne by (cases "rest st") (auto simp: cur_def)
    have "rest st' = drop (Suc k') (rest st) \<and> Suc k' \<le> length (rest st)
            \<and> isdigit (rest st ! (Suc k' - 1))"
      using ih(3,4,5) a(3) ne d0 by (cases "rest st"; cases k') auto
    then have "\<exists>k. rest st' = drop k (rest st) \<and> k \<le> length (rest st)
             \<and> (0 < k \<longrightarrow> isdigit (rest st ! (k - 1)))" by blast
    then show ?thesis using True c a(1) ih(1,2) by (simp add: sublen_app)
  next
    case False
    have n: "\<not> (sublen (append_space st) > 0 \<and> isdigit (cur (append_space st)))"
    proof (cases "rest st")
      case Nil
      then show ?thesis by (simp add: cur_app_end space_facts)
    next
      case (Cons a as)
      then show ?thesis using False Suc.prems(1)
        by (simp add: cur_app in_step_def sublen_app)
    qed
    have f: "frac_digits i (v * 10) nd st = (v', nd', st')" using Suc.prems(2) False by auto
    from Suc.IH [OF Suc.prems(1) f] show ?thesis using n by auto
  qed
qed

lemma consumed_step:
  assumes "rest st2 = drop j (rest st)" "consumed st2 st'"
  shows "consumed st st'"
proof -
  from assms(2) obtain k where k: "0 < k" "k \<le> length (rest st2)"
    "rest st' = drop k (rest st2)" "digit_or_dot (rest st2 ! (k - 1))"
    by (auto simp: consumed_def)
  have j: "j + k \<le> length (rest st)" using k(1,2) assms(1) by auto
  have "rest st2 ! (k - 1) = rest st ! (j + k - 1)"
    using assms(1) k(1) j by (simp add: add.commute nth_drop Nat.add_diff_assoc)
  then have "0 < j + k \<and> j + k \<le> length (rest st) \<and> rest st' = drop (j + k) (rest st)
     \<and> digit_or_dot (rest st ! (j + k - 1))"
    using k j assms(1) by (simp add: add.commute)
  then show ?thesis unfolding consumed_def by blast
qed

lemma consumed_end:
  assumes "consumed st st'" "rest st' = []"
  shows "rest st \<noteq> [] \<and> digit_or_dot (last (rest st))"
proof -
  from assms(1) obtain k where k: "0 < k" "k \<le> length (rest st)"
    "rest st' = drop k (rest st)" "digit_or_dot (rest st ! (k - 1))"
    by (auto simp: consumed_def)
  have "k = length (rest st)" using k(2,3) assms(2) by simp
  then show ?thesis using k(1,4) by (auto simp: last_conv_nth)
qed

lemma two_digits_consumed:
  assumes "two_digits st = Some (v, st')"
  shows "consumed st st'"
proof -
  from assms obtain c0 c1 cs where
    r: "rest st = c0 # c1 # cs" "isdigit c0" "isdigit c1" "st' = adv 2 st"
    by (rule two_digits_SomeD)
  then have "0 < (2::nat) \<and> 2 \<le> length (rest st) \<and> rest st' = drop 2 (rest st)
     \<and> digit_or_dot (rest st ! (2 - 1))"
    by (simp add: adv_def digit_or_dot_def)
  then show ?thesis unfolding consumed_def by blast
qed

lemma frac_digits_consumed:
  assumes "in_step st" "frac_digits i v nd st = (v', nd', st')"
    and "consumed st0 st" 
  shows "consumed st0 st'"
proof -
  from frac_digits_app [OF assms(1,2)] obtain k where
    k: "rest st' = drop k (rest st)" "k \<le> length (rest st)"
       "0 < k \<longrightarrow> isdigit (rest st ! (k - 1))" by blast
  show ?thesis
  proof (cases "k = 0")
    case True
    then have "rest st' = rest st" using k(1) by simp
    then show ?thesis using assms(3) by (simp add: consumed_def)
  next
    case False
    then have "consumed st st'" using k unfolding consumed_def digit_or_dot_def by blast
    moreover obtain j where "rest st = drop j (rest st0)"
      using assms(3) by (auto simp: consumed_def)
    ultimately show ?thesis by (rule consumed_step [rotated])
  qed
qed

lemma stop_test_app:
  assumes "in_step st"
  shows "(sublen (append_space st) = 0 \<or> \<not> isdigit (cur (append_space st)))
           \<longleftrightarrow> (sublen st = 0 \<or> \<not> isdigit (cur st))"
proof (cases "rest st")
  case Nil
  then show ?thesis using assms by (simp add: in_step_def cur_app_end space_facts)
next
  case (Cons a as)
  then show ?thesis using assms by (simp add: in_step_def cur_app sublen_app)
qed

lemma parse_fraction_app:
  assumes "in_step st" "parse_fraction d0 st = (u, d, st')" "consumed st0 st"
  shows "parse_fraction d0 (append_space st) = (u, d, append_space st')" 
    and "in_step st'" and "consumed st0 st'"
proof -
  obtain v1 n1 st1 where f1: "frac_digits 6 (dts_us d0) 0 st = (v1, n1, st1)"
    by (cases "frac_digits 6 (dts_us d0) 0 st") auto
  note a1 = frac_digits_app [OF assms(1) f1] frac_digits_consumed [OF assms(1) f1 assms(3)]
  define d1 where "d1 = d0\<lparr>dts_us := v1\<rparr>"
  obtain v2 n2 st2 where f2: "frac_digits 6 (dts_ps d1) 0 st1 = (v2, n2, st2)"
    by (cases "frac_digits 6 (dts_ps d1) 0 st1") auto
  have i1: "in_step st1" using a1 by simp
  note a2 = frac_digits_app [OF i1 f2] frac_digits_consumed [OF i1 f2 a1(2)]
  define d2 where "d2 = d1\<lparr>dts_ps := v2\<rparr>"
  obtain v3 n3 st3 where f3: "frac_digits 6 (dts_as d2) 0 st2 = (v3, n3, st3)"
    by (cases "frac_digits 6 (dts_as d2) 0 st2") auto
  have i2: "in_step st2" using a2 by simp
  note a3 = frac_digits_app [OF i2 f3] frac_digits_consumed [OF i2 f3 a2(2)]
  have g1: "frac_digits 6 (dts_us d0) 0 (append_space st) = (v1, n1, append_space st1)"
    using a1 by simp
  have g2: "frac_digits 6 (dts_ps d1) 0 (append_space st1) = (v2, n2, append_space st2)"
    using a2 by simp
  have g3: "frac_digits 6 (dts_as d2) 0 (append_space st2) = (v3, n3, append_space st3)"
    using a3 by simp
  have e: "parse_fraction d0 s =
     (case frac_digits 6 (dts_us d0) 0 s of (v, numdigits, s1) \<Rightarrow>
        if sublen s1 = 0 \<or> \<not> isdigit (cur s1)
        then (if numdigits > 3 then NPY_FR_us else NPY_FR_ms, d0\<lparr>dts_us := v\<rparr>, s1)
        else (case frac_digits 6 (dts_ps (d0\<lparr>dts_us := v\<rparr>)) 0 s1 of (v', numdigits, s2) \<Rightarrow>
          if sublen s2 = 0 \<or> \<not> isdigit (cur s2)
          then (if numdigits > 3 then NPY_FR_ps else NPY_FR_ns, d0\<lparr>dts_us := v, dts_ps := v'\<rparr>, s2)
          else (case frac_digits 6 (dts_as (d0\<lparr>dts_us := v, dts_ps := v'\<rparr>)) 0 s2 of (v'', numdigits, s3) \<Rightarrow>
             (if numdigits > 3 then NPY_FR_as else NPY_FR_fs,
              d0\<lparr>dts_us := v, dts_ps := v', dts_as := v''\<rparr>, s3))))" for s
    by (simp add: parse_fraction_def Let_def split: prod.splits)
  have both: "parse_fraction d0 (append_space st) = (u, d, append_space st')
     \<and> in_step st' \<and> consumed st0 st'"
  proof (cases "sublen st1 = 0 \<or> \<not> isdigit (cur st1)")
    case True
    then have "sublen (append_space st1) = 0 \<or> \<not> isdigit (cur (append_space st1))"
      using stop_test_app [OF i1] by simp
    then show ?thesis using True assms(2) f1 g1 a1 i1 
      by (simp add: e [of st] e [of "append_space st"])
  next
    case F1: False
    then have n1: "\<not> (sublen (append_space st1) = 0 \<or> \<not> isdigit (cur (append_space st1)))"
      using stop_test_app [OF i1] by simp
    show ?thesis
    proof (cases "sublen st2 = 0 \<or> \<not> isdigit (cur st2)")
      case True
      then have "sublen (append_space st2) = 0 \<or> \<not> isdigit (cur (append_space st2))"
        using stop_test_app [OF i2] by simp
      then show ?thesis using True F1 n1 assms(2) f1 g1 f2 g2 a2 i2
        by (simp add: e [of st] e [of "append_space st"] d1_def)
    next
      case F2: False
      then have n2: "\<not> (sublen (append_space st2) = 0 \<or> \<not> isdigit (cur (append_space st2)))"
        using stop_test_app [OF i2] by simp
      show ?thesis using F1 n1 F2 n2 assms(2) f1 g1 f2 g2 f3 g3 a3
        by (simp add: e [of st] e [of "append_space st"] d1_def d2_def)
    qed
  qed
  then show "parse_fraction d0 (append_space st) = (u, d, append_space st')" 
    and "in_step st'" and "consumed st0 st'" by simp_all
qed

lemma sep_step:
  assumes "in_step st1" "sublen st1 > 0"
  shows "adv 1 (append_space st1) = append_space (adv 1 st1)" and "in_step (adv 1 st1)"
    and "rest (adv 1 st1) = drop 1 (rest st1)"
    and "sublen (append_space (adv 1 st1)) \<noteq> 0"
    and "cur (append_space st1) = cur st1"
    and "sublen (append_space st1) > 0" and "sublen (append_space st1) \<noteq> 0"
proof -
  have ne: "rest st1 \<noteq> []" using assms by (auto simp: in_step_def)
  then have k: "1 \<le> length (rest st1)" by (cases "rest st1") simp_all
  show "adv 1 (append_space st1) = append_space (adv 1 st1)" and i: "in_step (adv 1 st1)"
    and "rest (adv 1 st1) = drop 1 (rest st1)"
    using adv_app [OF assms(1) k] by simp_all
  show "sublen (append_space (adv 1 st1)) \<noteq> 0"
    using in_step_sublen [OF i] by (simp add: sublen_app)
  show "cur (append_space st1) = cur st1" using ne by (rule cur_app)
  show "sublen (append_space st1) > 0" "sublen (append_space st1) \<noteq> 0"
    using assms(2) by (simp_all add: sublen_app)
qed

lemma consumed_adv1:
  assumes "consumed st st1" "rest st1 \<noteq> []" "digit_or_dot (cur st1)"
  shows "consumed st (adv 1 st1)"
proof -
  obtain c cs where r: "rest st1 = c # cs" using assms(2) by (cases "rest st1") auto
  then have "0 < (1::nat) \<and> 1 \<le> length (rest st1) \<and> rest (adv 1 st1) = drop 1 (rest st1)
     \<and> digit_or_dot (rest st1 ! (1 - 1))"
    using assms(3) by (simp add: adv_def cur_def)
  then have "consumed st1 (adv 1 st1)" unfolding consumed_def by blast
  moreover obtain j where "rest st1 = drop j (rest st)"
    using assms(1) by (auto simp: consumed_def)
  ultimately show ?thesis by (rule consumed_step [rotated])
qed

lemma chr_ne_space:
  "CHR ''.'' \<noteq> CHR '' ''" "CHR '':'' \<noteq> CHR '' ''" "CHR ''-'' \<noteq> CHR '' ''"
  "CHR ''Z'' \<noteq> CHR '' ''" "CHR ''+'' \<noteq> CHR '' ''"
  by simp_all

lemma scan_seconds_app:
  assumes "in_step st" "scan_seconds d0 st = Inr (l, u, d, st')"
  shows "l = ParseTimezone" and "in_step st'" and "consumed st st'"
    and "scan_seconds d0 (append_space st) = Inr (l, u, d, append_space st')"
proof -
  from assms(2) obtain v st1 where t: "two_digits st = Some (v, st1)"
    by (auto simp: scan_seconds_def split: option.splits)
  have v: "\<not> (v < 0 \<or> v \<ge> 60)" using assms(2) t by (auto simp: scan_seconds_def split: if_splits)
  note td = two_digits_app(1,2) [OF assms(1) t] two_digits_consumed [OF t]
  define d1 where "d1 = d0\<lparr>dts_sec := v\<rparr>"
  have all: "l = ParseTimezone \<and> in_step st' \<and> consumed st st'
     \<and> scan_seconds d0 (append_space st) = Inr (l, u, d, append_space st')"
  proof (cases "sublen st1 > 0 \<and> cur st1 = CHR ''.''")
    case True
    then have T': "sublen (append_space st1) > 0 \<and> cur (append_space st1) = CHR ''.''"
      using next_is_app [OF td(2) chr_ne_space(1)] by simp
    note ss = sep_step [OF td(2)] 
    have ne: "rest st1 \<noteq> []" using True td(2) by (auto simp: in_step_def)
    have c2: "consumed st (adv 1 st1)"
      by (rule consumed_adv1 [OF td(3) ne]) (use True in \<open>simp add: digit_or_dot_def\<close>)
    obtain u' d' st2 where pf: "parse_fraction d1 (adv 1 st1) = (u', d', st2)"
      by (cases "parse_fraction d1 (adv 1 st1)") auto
    have i2: "in_step (adv 1 st1)" using ss(2) True by simp
    note pa = parse_fraction_app [OF i2 pf c2]
    have res: "l = ParseTimezone" "u = u'" "d = d'" "st' = st2"
      using assms(2) t v True pf by (auto simp: scan_seconds_def Let_def d1_def)
    have "scan_seconds d0 (append_space st) = Inr (ParseTimezone, u', d', append_space st2)"
      using td(1) v T' ss(1) True pa(1) by (simp add: scan_seconds_def Let_def d1_def)
    then show ?thesis using res pa by simp
  next
    case False
    then have F': "\<not> (sublen (append_space st1) > 0 \<and> cur (append_space st1) = CHR ''.'')"
      using next_is_app [OF td(2) chr_ne_space(1)] by simp
    have res: "l = ParseTimezone" "u = NPY_FR_s" "d = d1" "st' = st1"
      using assms(2) t v False by (auto simp: scan_seconds_def Let_def d1_def split: if_splits)
    have "scan_seconds d0 (append_space st) = Inr (ParseTimezone, NPY_FR_s, d1, append_space st1)"
      using td(1) v F' by (auto simp: scan_seconds_def Let_def d1_def)
    then show ?thesis using res td by simp
  qed
  then show "l = ParseTimezone" and "in_step st'" and "consumed st st'"
    and "scan_seconds d0 (append_space st) = Inr (l, u, d, append_space st')" by simp_all
qed

lemma scan_minutes_app:
  assumes "in_step st" "scan_minutes d0 st = Inr (l, u, d, st')"
  shows "l = ParseTimezone" and "in_step st'" and "consumed st st'"
    and "scan_minutes d0 (append_space st) = Inr (l, u, d, append_space st')"
proof -
  from assms(2) obtain v st1 where t: "two_digits st = Some (v, st1)"
    by (auto simp: scan_minutes_def split: option.splits)
  have v: "\<not> (dts_hour d0 < 0 \<or> v \<ge> 60)"
    using assms(2) t by (auto simp: scan_minutes_def split: if_splits)
  note td = two_digits_app(1,2) [OF assms(1) t] two_digits_consumed [OF t]
  define d1 where "d1 = d0\<lparr>dts_min := v\<rparr>"
  have all: "l = ParseTimezone \<and> in_step st' \<and> consumed st st'
     \<and> scan_minutes d0 (append_space st) = Inr (l, u, d, append_space st')"
  proof (cases "sublen st1 > 0 \<and> cur st1 = CHR '':''")
    case True
    then have T': "sublen (append_space st1) > 0 \<and> cur (append_space st1) = CHR '':''"
      using next_is_app [OF td(2) chr_ne_space(2)] by simp
    note ss = sep_step [OF td(2)]
    have i2: "in_step (adv 1 st1)" using ss(2) True by simp
    have nz: "sublen (adv 1 st1) \<noteq> 0"
      using assms(2) t v True by (auto simp: scan_minutes_def Let_def split: if_splits)
    have sc: "scan_seconds d1 (adv 1 st1) = Inr (l, u, d, st')"
      using assms(2) t v True nz by (auto simp: scan_minutes_def Let_def d1_def)
    note sa = scan_seconds_app [OF i2 sc]
    obtain j where j: "rest st1 = drop j (rest st)" using td(3) by (auto simp: consumed_def)
    have "rest (adv 1 st1) = drop (j + 1) (rest st)" using ss(3) True j by simp
    then have c: "consumed st st'" using sa(3) by (rule consumed_step)
    have "scan_minutes d0 (append_space st) = Inr (l, u, d, append_space st')"
      using td(1) v T' ss(1,4) True sa(4) by (simp add: scan_minutes_def Let_def d1_def)
    then show ?thesis using sa c by simp
  next
    case False
    then have F': "\<not> (sublen (append_space st1) > 0 \<and> cur (append_space st1) = CHR '':'')"
      using next_is_app [OF td(2) chr_ne_space(2)] by simp
    have res: "l = ParseTimezone" "u = NPY_FR_m" "d = d1" "st' = st1"
      using assms(2) t v False by (auto simp: scan_minutes_def Let_def d1_def split: if_splits)
    have "scan_minutes d0 (append_space st) = Inr (ParseTimezone, NPY_FR_m, d1, append_space st1)"
      using td(1) v F' by (auto simp: scan_minutes_def Let_def d1_def)
    then show ?thesis using res td by simp
  qed
  then show "l = ParseTimezone" and "in_step st'" and "consumed st st'"
    and "scan_minutes d0 (append_space st) = Inr (l, u, d, append_space st')" by simp_all
qed

lemma scan_hours_app:
  assumes "in_step st" "scan_hours d0 st = Inr (l, u, d, st')"
  shows "l = ParseTimezone" and "in_step st'" and "consumed st st'"
    and "scan_hours d0 (append_space st) = Inr (l, u, d, append_space st')"
proof -
  from assms(2) obtain v st1 where t: "two_digits st = Some (v, st1)"
    by (auto simp: scan_hours_def split: option.splits)
  have v: "\<not> (v < 0 \<or> v \<ge> 24)"
    using assms(2) t by (auto simp: scan_hours_def split: if_splits)
  note td = two_digits_app(1,2) [OF assms(1) t] two_digits_consumed [OF t]
  define d1 where "d1 = d0\<lparr>dts_hour := v\<rparr>"
  have all: "l = ParseTimezone \<and> in_step st' \<and> consumed st st'
     \<and> scan_hours d0 (append_space st) = Inr (l, u, d, append_space st')"
  proof (cases "sublen st1 > 0 \<and> cur st1 = CHR '':''")
    case True
    then have T': "sublen (append_space st1) > 0 \<and> cur (append_space st1) = CHR '':''"
      using next_is_app [OF td(2) chr_ne_space(2)] by simp
    note ss = sep_step [OF td(2)]
    have i2: "in_step (adv 1 st1)" using ss(2) True by simp
    have nz: "sublen (adv 1 st1) \<noteq> 0"
      using assms(2) t v True by (auto simp: scan_hours_def Let_def split: if_splits)
    have sc: "scan_minutes d1 (adv 1 st1) = Inr (l, u, d, st')"
      using assms(2) t v True nz by (auto simp: scan_hours_def Let_def d1_def)
    note sa = scan_minutes_app [OF i2 sc]
    obtain j where j: "rest st1 = drop j (rest st)" using td(3) by (auto simp: consumed_def)
    have "rest (adv 1 st1) = drop (j + 1) (rest st)" using ss(3) True j by simp
    then have c: "consumed st st'" using sa(3) by (rule consumed_step)
    have "scan_hours d0 (append_space st) = Inr (l, u, d, append_space st')"
      using td(1) v T' ss(1,4) True sa(4) by (simp add: scan_hours_def Let_def d1_def)
    then show ?thesis using sa c by simp
  next
    case False
    then have F': "\<not> (sublen (append_space st1) > 0 \<and> cur (append_space st1) = CHR '':'')"
      using next_is_app [OF td(2) chr_ne_space(2)] by simp
    have res: "l = ParseTimezone" "u = NPY_FR_h" "d = d1" "st' = st1"
      using assms(2) t v False by (auto simp: scan_hours_def Let_def d1_def split: if_splits)
    have "scan_hours d0 (append_space st) = Inr (ParseTimezone, NPY_FR_h, d1, append_space st1)"
      using td(1) v F' by (auto simp: scan_hours_def Let_def d1_def)
    then show ?thesis using res td by simp
  qed
  then show "l = ParseTimezone" and "in_step st'" and "consumed st st'"
    and "scan_hours d0 (append_space st) = Inr (l, u, d, append_space st')" by simp_all
qed

lemma scan_day_app:
  assumes "in_step st" "scan_day E leap d0 st = Inr (l, u, d, st')"
  shows "in_step st'" and "consumed st st'" and "l = Finish \<Longrightarrow> rest st' = []"
    and "l = ParseTimezone \<Longrightarrow>
           scan_day E leap d0 (append_space st) = Inr (l, u, d, append_space st')"
proof -
  from assms(2) obtain v st1 where t: "two_digits st = Some (v, st1)"
    by (auto simp: scan_day_def split: option.splits)
  have v: "\<not> (v < 1 \<or> v > days_per_month_table E leap (dts_month d0 - 1))"
    using assms(2) t by (auto simp: scan_day_def split: if_splits)
  note td = two_digits_app(1,2) [OF assms(1) t] two_digits_consumed [OF t]
  define d1 where "d1 = d0\<lparr>dts_day := v\<rparr>"
  have all: "in_step st' \<and> consumed st st' \<and> (l = Finish \<longrightarrow> rest st' = [])
     \<and> (l = ParseTimezone \<longrightarrow>
           scan_day E leap d0 (append_space st) = Inr (l, u, d, append_space st'))"
  proof (cases "sublen st1 = 0")
    case True
    then have "l = Finish" "st' = st1"
      using assms(2) t v by (auto simp: scan_day_def Let_def)
    then show ?thesis using td True in_step_sublen [OF td(2)] by simp
  next
    case False
    then have pos: "sublen st1 > 0" using in_step_sublen [OF td(2)] by simp
    note ss = sep_step [OF td(2) pos]
    have sep: "\<not> (cur st1 \<noteq> CHR ''T'' \<and> cur st1 \<noteq> CHR '' '')"
      using assms(2) t v False by (auto simp: scan_day_def Let_def split: if_splits)
    have sc: "scan_hours d1 (adv 1 st1) = Inr (l, u, d, st')"
      using assms(2) t v False sep by (auto simp: scan_day_def Let_def d1_def split: if_splits)
    note sa = scan_hours_app [OF ss(2) sc]
    obtain j where j: "rest st1 = drop j (rest st)" using td(3) by (auto simp: consumed_def)
    have "rest (adv 1 st1) = drop (j + 1) (rest st)" using ss(3) j by simp
    then have c: "consumed st st'" using sa(3) by (rule consumed_step)
    have "scan_day E leap d0 (append_space st) = Inr (l, u, d, append_space st')"
      using td(1) v ss(1,5,7) sep sa(4) by (auto simp: scan_day_def Let_def d1_def)
    then show ?thesis using sa c by simp
  qed
  then show "in_step st'" and "consumed st st'" and "l = Finish \<Longrightarrow> rest st' = []"
    and "l = ParseTimezone \<Longrightarrow>
           scan_day E leap d0 (append_space st) = Inr (l, u, d, append_space st')"
    by simp_all
qed

lemma scan_month_app:
  assumes "in_step st" "scan_month E leap d0 st = Inr (l, u, d, st')"
  shows "in_step st'" and "consumed st st'" and "l = Finish \<Longrightarrow> rest st' = []"
    and "l = ParseTimezone \<Longrightarrow>
           scan_month E leap d0 (append_space st) = Inr (l, u, d, append_space st')"
proof -
  from assms(2) obtain v st1 where t: "two_digits st = Some (v, st1)"
    by (auto simp: scan_month_def split: option.splits)
  have v: "\<not> (v < 1 \<or> v > 12)"
    using assms(2) t by (auto simp: scan_month_def split: if_splits)
  note td = two_digits_app(1,2) [OF assms(1) t] two_digits_consumed [OF t]
  define d1 where "d1 = d0\<lparr>dts_month := v\<rparr>"
  have all: "in_step st' \<and> consumed st st' \<and> (l = Finish \<longrightarrow> rest st' = [])
     \<and> (l = ParseTimezone \<longrightarrow>
           scan_month E leap d0 (append_space st) = Inr (l, u, d, append_space st'))"
  proof (cases "sublen st1 = 0")
    case True
    then have "l = Finish" "st' = st1"
      using assms(2) t v by (auto simp: scan_month_def Let_def)
    then show ?thesis using td True in_step_sublen [OF td(2)] by simp
  next
    case False
    then have pos: "sublen st1 > 0" using in_step_sublen [OF td(2)] by simp
    note ss = sep_step [OF td(2) pos]
    have sep: "cur st1 = CHR ''-''"
      using assms(2) t v False by (auto simp: scan_month_def Let_def split: if_splits)
    have nz: "sublen (adv 1 st1) \<noteq> 0"
      using assms(2) t v False sep by (auto simp: scan_month_def Let_def split: if_splits)
    have sc: "scan_day E leap d1 (adv 1 st1) = Inr (l, u, d, st')"
      using assms(2) t v False sep nz by (auto simp: scan_month_def Let_def d1_def)
    note sa = scan_day_app [OF ss(2) sc]
    obtain j where j: "rest st1 = drop j (rest st)" using td(3) by (auto simp: consumed_def)
    have "rest (adv 1 st1) = drop (j + 1) (rest st)" using ss(3) j by simp
    then have c: "consumed st st'" using sa(2) by (rule consumed_step)
    have "l = ParseTimezone \<Longrightarrow>
            scan_month E leap d0 (append_space st) = Inr (l, u, d, append_space st')"
      using td(1) v ss(1,4,5,7) sep sa(4) by (auto simp: scan_month_def Let_def d1_def)
    then show ?thesis using sa c by simp
  qed
  then show "in_step st'" and "consumed st st'" and "l = Finish \<Longrightarrow> rest st' = []"
    and "l = ParseTimezone \<Longrightarrow>
           scan_month E leap d0 (append_space st) = Inr (l, u, d, append_space st')"
    by simp_all
qed

lemma skip_space_app:
  "length xs \<le> 126 \<Longrightarrow> skip_space xs p (int (length xs)) = st \<Longrightarrow>
     in_step st \<and> (\<exists>j. rest st = drop j xs)
     \<and> (rest st \<noteq> [] \<longrightarrow> skip_space (xs @ '' '') p (int (length xs) + 1) = append_space st)"
proof (induction xs arbitrary: p st)
  case Nil
  then show ?case by (auto simp: in_step_def)
next
  case (Cons c cs)
  show ?case
  proof (cases "isspace c")
    case True
    have t: "to_char (int (length cs)) = int (length cs)"
      "to_char (1 + int (length cs)) = 1 + int (length cs)"
      using Cons.prems(1) by (simp_all add: to_char_id)
    have s: "skip_space cs (Suc p) (int (length cs)) = st"
      using Cons.prems True t by simp
    have l: "length cs \<le> 126" using Cons.prems(1) by simp
    from Cons.IH [OF l s] obtain j where ih: "in_step st" "rest st = drop j cs"
      "rest st \<noteq> [] \<longrightarrow> skip_space (cs @ '' '') (Suc p) (int (length cs) + 1) = append_space st"
      by blast
    have "rest st = drop (Suc j) (c # cs)" using ih(2) by simp
    then have "\<exists>j. rest st = drop j (c # cs)" by blast
    then show ?thesis using ih True t by (simp add: add.commute)
  next
    case False
    then have "st = \<lparr>rest = c # cs, pos = p, sublen = int (length (c # cs))\<rparr>"
      using Cons.prems by simp
    moreover have "c # cs = drop 0 (c # cs)" by simp
    ultimately show ?thesis using False Cons.prems(1)
      by (auto simp: in_step_def append_space_def intro: exI [of _ 0])
  qed
qed

lemma parse_year_app:
  "length xs \<le> 126 \<Longrightarrow> parse_year y xs p (int (length xs)) = (y', st) \<Longrightarrow>
     in_step st \<and> parse_year y (xs @ '' '') p (int (length xs) + 1) = (y', append_space st)
     \<and> (\<exists>j. j \<le> length xs \<and> rest st = drop j xs \<and> (0 < j \<longrightarrow> isdigit (xs ! (j - 1))))"
proof (induction xs arbitrary: p y)
  case Nil
  then show ?case by (auto simp: in_step_def append_space_def space_facts)
next
  case (Cons c cs)
  show ?case
  proof (cases "isdigit c")
    case True
    have t: "to_char (int (length cs)) = int (length cs)"
      "to_char (1 + int (length cs)) = 1 + int (length cs)"
      using Cons.prems(1) by (simp_all add: to_char_id)
    have s: "parse_year (10 * y + word_of_int (digit_val c)) cs (Suc p) (int (length cs)) = (y', st)"
      using Cons.prems True t by simp
    have l: "length cs \<le> 126" using Cons.prems(1) by simp
    from Cons.IH [OF l s] obtain j where ih: "in_step st"
      "parse_year (10 * y + word_of_int (digit_val c)) (cs @ '' '') (Suc p) (int (length cs) + 1)
         = (y', append_space st)"
      "j \<le> length cs" "rest st = drop j cs" "0 < j \<longrightarrow> isdigit (cs ! (j - 1))"
      by blast
    have "Suc j \<le> length (c # cs) \<and> rest st = drop (Suc j) (c # cs)
            \<and> (0 < Suc j \<longrightarrow> isdigit ((c # cs) ! (Suc j - 1)))"
      using ih(3,4,5) True by (cases j) auto
    then have "\<exists>j. j \<le> length (c # cs) \<and> rest st = drop j (c # cs)
            \<and> (0 < j \<longrightarrow> isdigit ((c # cs) ! (j - 1)))" by blast
    then show ?thesis using ih(1,2) True t by (simp add: add.commute)
  next
    case False
    then have st: "st = \<lparr>rest = c # cs, pos = p, sublen = int (length (c # cs))\<rparr>" "y' = y"
      using Cons.prems by simp_all
    have "(0::nat) \<le> length (c # cs) \<and> rest st = drop 0 (c # cs)
            \<and> ((0::nat) < 0 \<longrightarrow> isdigit ((c # cs) ! (0 - 1)))" using st by simp
    then have "\<exists>j. j \<le> length (c # cs) \<and> rest st = drop j (c # cs)
            \<and> (0 < j \<longrightarrow> isdigit ((c # cs) ! (j - 1)))" by blast
    then show ?thesis using False Cons.prems(1) st
      by (simp add: in_step_def append_space_def)
  qed
qed

lemma last_drop: "drop k xs \<noteq> [] \<Longrightarrow> last (drop k xs) = last xs"
  by (induction xs arbitrary: k) (auto simp: drop_Cons split: nat.splits)

lemma scan_datetime_app:
  assumes len: "length str \<le> 126" and sc: "scan_datetime E str d0 = Inr (l, u, d, st')"
  shows "in_step st'" and "\<exists>k. rest st' = drop k str"
    and "rest st' = [] \<Longrightarrow> str \<noteq> [] \<and> digit_or_dot (last str)"
    and "l = Finish \<Longrightarrow> rest st' = []"
    and "l = ParseTimezone \<Longrightarrow>
           scan_datetime E (str @ '' '') d0 = Inr (l, u, d, append_space st')"
proof -
  have tc: "to_char (int (length str)) = int (length str)"
    "to_char (int (length (str @ '' ''))) = int (length str) + 1"
    using len by (simp_all add: to_char_id)
  define st0 where "st0 = skip_space str 0 (int (length str))"
  define st1 where "st1 = (if cur st0 = CHR ''-'' then adv 1 st0 else st0)"
  obtain y0 st2 where py: "parse_year 0 (rest st1) (pos st1) (sublen st1) = (y0, st2)"
    by (cases "parse_year 0 (rest st1) (pos st1) (sublen st1)")
  define y where "y = (if first_char str = CHR ''-'' then - y0 else y0)"
  define d1 where "d1 = d0\<lparr>dts_year := y\<rparr>"
  note u1 = scan_datetime_unfold [of str st0 st1 y0 st2 y E d0, unfolded tc,
      OF st0_def [symmetric] st1_def py y_def, folded d1_def]
  from skip_space_app [OF len st0_def [symmetric]] obtain j0 where
    s0: "in_step st0" "rest st0 = drop j0 str"
        "rest st0 \<noteq> [] \<longrightarrow> skip_space (str @ '' '') 0 (int (length str) + 1) = append_space st0"
    by blast
  have nz1: "sublen st1 \<noteq> 0" using sc u1 by (auto split: if_splits)
  have ne0: "rest st0 \<noteq> []"
  proof
    assume e: "rest st0 = []"
    then have "cur st0 \<noteq> CHR ''-''" by (simp add: cur_def)
    then have "st1 = st0" by (simp add: st1_def)
    then show False using nz1 e s0(1) by (simp add: in_step_def)
  qed
  then have pos0: "sublen st0 > 0" using s0(1) by (simp add: in_step_def)
  have strne: "str \<noteq> []" using ne0 s0(2) by auto
  note ss0 = sep_step [OF s0(1) pos0]
  have i1: "in_step st1" using s0(1) ss0(2) by (simp add: st1_def)
  obtain j1 where j1: "rest st1 = drop j1 str"
  proof (cases "cur st0 = CHR ''-''")
    case True
    then have "rest st1 = drop (j0 + 1) str" using ss0(3) s0(2) by (simp add: st1_def)
    then show ?thesis by (rule that)
  next
    case False
    then show ?thesis using s0(2) that by (simp add: st1_def)
  qed
  have ne1: "rest st1 \<noteq> []" using nz1 i1 by (simp add: in_step_def)
  have l1: "length (rest st1) \<le> 126" "sublen st1 = int (length (rest st1))"
    using i1 by (simp_all add: in_step_def)
  from parse_year_app [OF l1(1) py [unfolded l1(2)]] obtain j2 where
    p2: "in_step st2"
      "parse_year 0 (rest st1 @ '' '') (pos st1) (int (length (rest st1)) + 1)
         = (y0, append_space st2)"
      "j2 \<le> length (rest st1)" "rest st2 = drop j2 (rest st1)"
      "0 < j2 \<longrightarrow> isdigit (rest st1 ! (j2 - 1))" by blast
  have r2: "rest st2 = drop (j1 + j2) str" using p2(4) j1 by (simp add: add.commute)
  \<comment> \<open>the same steps on the string with the space appended\<close>
  have a0: "skip_space (str @ '' '') 0 (int (length str) + 1) = append_space st0"
    using s0(3) ne0 by simp
  have a1: "append_space st1
              = (if cur (append_space st0) = CHR ''-'' then adv 1 (append_space st0)
                 else append_space st0)"
    using ss0(1,5) by (simp add: st1_def)
  have a2: "parse_year 0 (rest (append_space st1)) (pos (append_space st1))
              (sublen (append_space st1)) = (y0, append_space st2)"
    using p2(2) l1(2) by (simp add: append_space_def)
  have fc: "first_char (str @ '' '') = first_char str"
    using strne by (cases str) (simp_all add: first_char_def)
  note u2 = scan_datetime_unfold [of "str @ '' ''" "append_space st0" "append_space st1"
      y0 "append_space st2" y E d0, unfolded tc, OF a0 a1 a2 y_def [unfolded fc [symmetric]],
      folded d1_def]
  have nz1': "sublen (append_space st1) \<noteq> 0"
    using in_step_sublen [OF i1] by (simp add: sublen_app)
  have all: "in_step st' \<and> (\<exists>k. rest st' = drop k str)
     \<and> (rest st' = [] \<longrightarrow> digit_or_dot (last str))
     \<and> (l = Finish \<longrightarrow> rest st' = [])
     \<and> (l = ParseTimezone \<longrightarrow>
           scan_datetime E (str @ '' '') d0 = Inr (l, u, d, append_space st'))"
  proof (cases "sublen st2 = 0")
    case True
    then have res: "l = Finish" "st' = st2" using sc u1 nz1 by auto
    have e2: "rest st2 = []" using True p2(1) by (simp add: in_step_def)
    then have "j2 = length (rest st1)" using p2(3,4) by simp
    then have "isdigit (last (rest st1))" using p2(5) ne1 by (simp add: last_conv_nth)
    moreover have "last (rest st1) = last str" using ne1 j1 last_drop [of j1 str] by simp
    ultimately have "digit_or_dot (last str)" by (simp add: digit_or_dot_def)
    then show ?thesis using res p2(1) r2 e2 by auto
  next
    case False
    then have pos2: "sublen st2 > 0" using in_step_sublen [OF p2(1)] by simp
    note ss2 = sep_step [OF p2(1) pos2]
    have sep: "cur st2 = CHR ''-''" using sc u1 nz1 False by (auto split: if_splits)
    have nz3: "sublen (adv 1 st2) \<noteq> 0" using sc u1 nz1 False sep by (auto split: if_splits)
    have sm: "scan_month E (is_leapyear E y) d1 (adv 1 st2) = Inr (l, u, d, st')"
      using sc u1 nz1 False sep nz3 by simp
    note sa = scan_month_app [OF ss2(2) sm]
    have r3: "rest (adv 1 st2) = drop (j1 + j2 + 1) str" using ss2(3) r2 by simp
    define s0 where "s0 = \<lparr>rest = str, pos = 0, sublen = 0\<rparr>"
    have "rest (adv 1 st2) = drop (j1 + j2 + 1) (rest s0)" using r3 by (simp add: s0_def)
    then have c: "consumed s0 st'" using sa(2) by (rule consumed_step)
    then have k: "\<exists>k. rest st' = drop k str" by (auto simp: consumed_def s0_def)
    have e: "rest st' = [] \<longrightarrow> digit_or_dot (last str)"
      using consumed_end [OF c] by (simp add: s0_def)
    have "l = ParseTimezone \<Longrightarrow>
            scan_datetime E (str @ '' '') d0 = Inr (l, u, d, append_space st')"
      using u2 nz1' ss2(1,4,5,7) sep sa(4) by simp
    then show ?thesis using sa(1,3) k e by simp
  qed
  then show "in_step st'" and "\<exists>k. rest st' = drop k str"
    and "rest st' = [] \<Longrightarrow> str \<noteq> [] \<and> digit_or_dot (last str)"
    and "l = Finish \<Longrightarrow> rest st' = []"
    and "l = ParseTimezone \<Longrightarrow>
           scan_datetime E (str @ '' '') d0 = Inr (l, u, d, append_space st')"
    using strne by simp_all
qed



lemma digit_or_dot_not_zone:
  "digit_or_dot c \<Longrightarrow> c \<noteq> CHR ''Z'' \<and> \<not> isspace c"
  by (auto simp: digit_or_dot_def isdigit_def isspace_def)




lemma ends_with_zone:
  assumes len: "length str \<le> 126"
    and ok: "parse_iso_8601_datetime E str unit casting = Inr r" and ns: "\<not> out_special r"
    and lastc: "last str = CHR ''Z'' \<or> isspace (last str)"
  shows "zone_text E str \<noteq> [] \<and> \<not> hours_only (zone_text E str)"
proof -
  have gen: "parse_general E str unit casting = Inr r" using ok ns by (rule general_path)
  from gen obtain l u d st where sc: "scan_datetime E str zero_dts = Inr (l, u, d, st)"
    by (auto simp: parse_general_def split: sum.splits)
  note sa = scan_datetime_app [OF len sc]
  have nd: "\<not> digit_or_dot (last str)" using lastc digit_or_dot_not_zone [of "last str"] by auto
  have ne: "rest st \<noteq> []" using sa(3) nd by auto
  then have l: "l = ParseTimezone" using sa(4) by (cases l) auto
  have z: "zone_text E str = rest st" using sc l by (simp add: zone_text_def)
  obtain k where k: "rest st = drop k str" using sa(2) by blast
  have nd': "\<not> digit_or_dot (last (rest st))" using nd ne k last_drop [of k str] by simp
  from gen sc l obtain res where pt: "parse_timezone E d st = Inr res"
    by (auto simp: parse_general_def split: sum.splits)
  have "\<not> hours_only (rest st)"
  proof
    assume h: "hours_only (rest st)"
    then have l3: "length (rest st) = 3" and sgn: "cur st = CHR ''-'' \<or> cur st = CHR ''+''"
      by (auto simp: hours_only_def first_char_def cur_def)
    have pos: "sublen st > 0" using sa(1) ne by (simp add: in_step_def)
    have nz: "cur st \<noteq> CHR ''Z''" using sgn by auto
    from pt nz sgn pos obtain d' st' where po: "parse_offset E d st = Inr (d', st')"
      by (auto simp: parse_timezone_def split: sum.splits)
    then obtain oh sb where t: "two_digits (adv 1 st) = Some (oh, sb)"
      by (auto simp: parse_offset_def Let_def split: option.splits)
    from t obtain c0 c1 cs where r: "rest (adv 1 st) = c0 # c1 # cs" "isdigit c0" "isdigit c1"
      by (rule two_digits_SomeD)
    have "rest (adv 1 st) = drop 1 (rest st)" by (simp add: adv_def)
    then have "last (rest st) = c1" using r(1) l3 by (cases "rest st") auto
    then show False using nd' r(3) by (simp add: digit_or_dot_def)
  qed
  then show ?thesis using z ne by simp
qed













section \<open>The parser: fractional seconds\<close>

lemma fraction_of_prefix: "dot_free pre \<Longrightarrow> fraction_of (pre @ xs) = fraction_of xs"
  by (simp add: fraction_of_def dot_free_def dropWhile_append)

lemma dot_trace_prefix:
  assumes "dot_free pre" "dot_trace xs ys u"
  shows "dot_trace (pre @ xs) ys u"
proof -
  from assms(2) consider cs where "xs = cs @ ys" "dot_free cs"
    | "CHR ''.'' \<in> set xs" "u = unit_of_digit_count (length (takeWhile isdigit (fraction_of xs)))"
    by (auto simp: dot_trace_def)
  then show ?thesis
  proof cases
    case 1
    then have "pre @ xs = (pre @ cs) @ ys \<and> dot_free (pre @ cs)"
      using assms(1) by (simp add: dot_free_def)
    then show ?thesis unfolding dot_trace_def by blast
  next
    case 2
    then show ?thesis using fraction_of_prefix [OF assms(1), of xs]
      by (simp add: dot_trace_def)
  qed
qed

lemma digit_not_dot: "isdigit c \<Longrightarrow> c \<noteq> CHR ''.''"
  by (auto simp: isdigit_def)

lemma space_not_dot: "isspace c \<Longrightarrow> c \<noteq> CHR ''.''"
  by (auto simp: isspace_def)

lemma two_digits_split:
  assumes "two_digits st = Some (v, st1)"
  shows "\<exists>pre. rest st = pre @ rest st1 \<and> dot_free pre"
proof -
  from assms obtain c0 c1 cs where
    r: "rest st = c0 # c1 # cs" "isdigit c0" "isdigit c1" "st1 = adv 2 st"
    by (rule two_digits_SomeD)
  then have "rest st = [c0, c1] @ rest st1 \<and> dot_free [c0, c1]"
    using digit_not_dot [of c0] digit_not_dot [of c1] by (simp add: adv_def dot_free_def)
  then show ?thesis by blast
qed

lemma sep_split:
  assumes "rest st1 \<noteq> []" "cur st1 \<noteq> CHR ''.''"
  shows "rest st1 = [cur st1] @ rest (adv 1 st1) \<and> dot_free [cur st1]"
  using assms by (cases "rest st1") (simp_all add: cur_def adv_def dot_free_def)

lemma window_digits_in_step:
  "in_step st \<Longrightarrow> window_digits st = length (takeWhile isdigit (rest st))"
  by (simp add: in_step_def window_digits_def)

lemma in_step_range: "in_step st \<Longrightarrow> 0 \<le> sublen st \<and> sublen st \<le> 127"
  by (simp add: in_step_def)

lemma scan_seconds_dots:
  assumes "in_step st" "scan_seconds d0 st = Inr (l, u, d, st')"
  shows "dot_trace (rest st) (rest st') u"
proof -
  from assms(2) obtain v st1 where t: "two_digits st = Some (v, st1)"
    by (auto simp: scan_seconds_def split: option.splits)
  have v: "\<not> (v < 0 \<or> v \<ge> 60)" using assms(2) t by (auto simp: scan_seconds_def split: if_splits)
  from two_digits_split [OF t] obtain pre where
    pre: "rest st = pre @ rest st1" "dot_free pre" by blast
  have i1: "in_step st1" using two_digits_app(2) [OF assms(1) t] .
  show ?thesis
  proof (cases "sublen st1 > 0 \<and> cur st1 = CHR ''.''")
    case True
    then have ne: "rest st1 \<noteq> []" using i1 by (auto simp: in_step_def)
    have r1: "rest st1 = CHR ''.'' # rest (adv 1 st1)"
      using ne True by (cases "rest st1") (simp_all add: cur_def adv_def)
    have i2: "in_step (adv 1 st1)" using sep_step(2) [OF i1] True by simp
    have "u = fst (parse_fraction (d0\<lparr>dts_sec := v\<rparr>) (adv 1 st1))"
      using assms(2) t v True by (auto simp: scan_seconds_def Let_def split: prod.splits)
    then have u: "u = unit_of_digit_count (length (takeWhile isdigit (rest (adv 1 st1))))"
      using parse_fraction_unit [of "adv 1 st1"] in_step_range [OF i2]
        window_digits_in_step [OF i2] by simp
    have "fraction_of (rest st1) = rest (adv 1 st1)"
      using r1 by (simp add: fraction_of_def)
    then have "dot_trace (rest st1) (rest st') u"
      using u r1 by (simp add: dot_trace_def)
    then show ?thesis using pre dot_trace_prefix by simp
  next
    case False
    then have "st' = st1"
      using assms(2) t v by (auto simp: scan_seconds_def Let_def split: if_splits)
    then show ?thesis using pre unfolding dot_trace_def by blast
  qed
qed

lemma stage_dots:
  assumes "two_digits st = Some (v, st1)" "in_step st"
    and "rest st1 \<noteq> []" "cur st1 \<noteq> CHR ''.''"
    and "dot_trace (rest (adv 1 st1)) ys u"
  shows "dot_trace (rest st) ys u"
proof -
  from two_digits_split [OF assms(1)] obtain pre where
    pre: "rest st = pre @ rest st1" "dot_free pre" by blast
  note s = sep_split [OF assms(3,4)]
  have "dot_trace (rest st1) ys u"
    using dot_trace_prefix [of "[cur st1]" "rest (adv 1 st1)" ys u] s assms(5) by simp
  then show ?thesis using pre dot_trace_prefix by simp
qed

lemma stage_stop_dots:
  assumes "two_digits st = Some (v, st1)"
  shows "dot_trace (rest st) (rest st1) u"
  using two_digits_split [OF assms] unfolding dot_trace_def by blast

lemma scan_minutes_dots:
  assumes "in_step st" "scan_minutes d0 st = Inr (l, u, d, st')"
  shows "dot_trace (rest st) (rest st') u"
proof -
  from assms(2) obtain v st1 where t: "two_digits st = Some (v, st1)"
    by (auto simp: scan_minutes_def split: option.splits)
  have v: "\<not> (dts_hour d0 < 0 \<or> v \<ge> 60)"
    using assms(2) t by (auto simp: scan_minutes_def split: if_splits)
  have i1: "in_step st1" using two_digits_app(2) [OF assms(1) t] .
  show ?thesis
  proof (cases "sublen st1 > 0 \<and> cur st1 = CHR '':''")
    case True
    then have ne: "rest st1 \<noteq> []" using i1 by (auto simp: in_step_def)
    have i2: "in_step (adv 1 st1)" using sep_step(2) [OF i1] True by simp
    have "scan_seconds (d0\<lparr>dts_min := v\<rparr>) (adv 1 st1) = Inr (l, u, d, st')"
      using assms(2) t v True by (auto simp: scan_minutes_def Let_def split: if_splits)
    from scan_seconds_dots [OF i2 this] show ?thesis
      using stage_dots [OF t assms(1) ne] True by simp
  next
    case False
    then have "st' = st1"
      using assms(2) t v by (auto simp: scan_minutes_def Let_def split: if_splits)
    then show ?thesis using stage_stop_dots [OF t] by simp
  qed
qed

lemma scan_hours_dots:
  assumes "in_step st" "scan_hours d0 st = Inr (l, u, d, st')"
  shows "dot_trace (rest st) (rest st') u"
proof -
  from assms(2) obtain v st1 where t: "two_digits st = Some (v, st1)"
    by (auto simp: scan_hours_def split: option.splits)
  have v: "\<not> (v < 0 \<or> v \<ge> 24)"
    using assms(2) t by (auto simp: scan_hours_def split: if_splits)
  have i1: "in_step st1" using two_digits_app(2) [OF assms(1) t] .
  show ?thesis
  proof (cases "sublen st1 > 0 \<and> cur st1 = CHR '':''")
    case True
    then have ne: "rest st1 \<noteq> []" using i1 by (auto simp: in_step_def)
    have i2: "in_step (adv 1 st1)" using sep_step(2) [OF i1] True by simp
    have "scan_minutes (d0\<lparr>dts_hour := v\<rparr>) (adv 1 st1) = Inr (l, u, d, st')"
      using assms(2) t v True by (auto simp: scan_hours_def Let_def split: if_splits)
    from scan_minutes_dots [OF i2 this] show ?thesis
      using stage_dots [OF t assms(1) ne] True by simp
  next
    case False
    then have "st' = st1"
      using assms(2) t v by (auto simp: scan_hours_def Let_def split: if_splits)
    then show ?thesis using stage_stop_dots [OF t] by simp
  qed
qed

lemma scan_day_dots:
  assumes "in_step st" "scan_day E leap d0 st = Inr (l, u, d, st')"
  shows "dot_trace (rest st) (rest st') u"
proof -
  from assms(2) obtain v st1 where t: "two_digits st = Some (v, st1)"
    by (auto simp: scan_day_def split: option.splits)
  have v: "\<not> (v < 1 \<or> v > days_per_month_table E leap (dts_month d0 - 1))"
    using assms(2) t by (auto simp: scan_day_def split: if_splits)
  have i1: "in_step st1" using two_digits_app(2) [OF assms(1) t] .
  show ?thesis
  proof (cases "sublen st1 = 0")
    case True
    then have "st' = st1" using assms(2) t v by (auto simp: scan_day_def Let_def)
    then show ?thesis using stage_stop_dots [OF t] by simp
  next
    case False
    then have pos: "sublen st1 > 0" using in_step_sublen [OF i1] by simp
    then have ne: "rest st1 \<noteq> []" using i1 by (auto simp: in_step_def)
    have sep: "cur st1 = CHR ''T'' \<or> cur st1 = CHR '' ''"
      using assms(2) t v False by (auto simp: scan_day_def Let_def split: if_splits)
    then have nd: "cur st1 \<noteq> CHR ''.''" by auto
    have i2: "in_step (adv 1 st1)" using sep_step(2) [OF i1 pos] .
    have "scan_hours (d0\<lparr>dts_day := v\<rparr>) (adv 1 st1) = Inr (l, u, d, st')"
      using assms(2) t v False sep by (auto simp: scan_day_def Let_def split: if_splits)
    from scan_hours_dots [OF i2 this] show ?thesis
      using stage_dots [OF t assms(1) ne nd] by simp
  qed
qed

lemma scan_month_dots:
  assumes "in_step st" "scan_month E leap d0 st = Inr (l, u, d, st')"
  shows "dot_trace (rest st) (rest st') u"
proof -
  from assms(2) obtain v st1 where t: "two_digits st = Some (v, st1)"
    by (auto simp: scan_month_def split: option.splits)
  have v: "\<not> (v < 1 \<or> v > 12)"
    using assms(2) t by (auto simp: scan_month_def split: if_splits)
  have i1: "in_step st1" using two_digits_app(2) [OF assms(1) t] .
  show ?thesis
  proof (cases "sublen st1 = 0")
    case True
    then have "st' = st1" using assms(2) t v by (auto simp: scan_month_def Let_def)
    then show ?thesis using stage_stop_dots [OF t] by simp
  next
    case False
    then have pos: "sublen st1 > 0" using in_step_sublen [OF i1] by simp
    then have ne: "rest st1 \<noteq> []" using i1 by (auto simp: in_step_def)
    have sep: "cur st1 = CHR ''-''"
      using assms(2) t v False by (auto simp: scan_month_def Let_def split: if_splits)
    then have nd: "cur st1 \<noteq> CHR ''.''" by auto
    have i2: "in_step (adv 1 st1)" using sep_step(2) [OF i1 pos] .
    have "scan_day E leap (d0\<lparr>dts_month := v\<rparr>) (adv 1 st1) = Inr (l, u, d, st')"
      using assms(2) t v False sep by (auto simp: scan_month_def Let_def split: if_splits)
    from scan_day_dots [OF i2 this] show ?thesis
      using stage_dots [OF t assms(1) ne nd] by simp
  qed
qed

lemma skip_space_split:
  "\<exists>pre. xs = pre @ rest (skip_space xs p n) \<and> list_all isspace pre"
proof (induction xs arbitrary: p n)
  case Nil
  then show ?case by simp
next
  case (Cons c cs)
  show ?case
  proof (cases "n > 0 \<and> isspace c")
    case True
    from Cons.IH [of "Suc p" "to_char (n - 1)"] obtain pre where
      "cs = pre @ rest (skip_space cs (Suc p) (to_char (n - 1)))" "list_all isspace pre" by blast
    then have "c # cs = (c # pre) @ rest (skip_space (c # cs) p n) \<and> list_all isspace (c # pre)"
      using True by simp
    then show ?thesis by blast
  next
    case False
    then have "c # cs = [] @ rest (skip_space (c # cs) p n) \<and> list_all isspace []" by auto
    then show ?thesis by blast
  qed
qed

lemma parse_year_split:
  "\<exists>pre. xs = pre @ rest (snd (parse_year y xs p n)) \<and> list_all isdigit pre"
proof (induction xs arbitrary: y p n)
  case Nil
  then show ?case by simp
next
  case (Cons c cs)
  show ?case
  proof (cases "n > 0 \<and> isdigit c")
    case True
    from Cons.IH [of "10 * y + word_of_int (digit_val c)" "Suc p" "to_char (n - 1)"] obtain pre where
      "cs = pre @ rest (snd (parse_year (10 * y + word_of_int (digit_val c)) cs (Suc p)
                               (to_char (n - 1))))" "list_all isdigit pre" by blast
    then have "c # cs = (c # pre) @ rest (snd (parse_year y (c # cs) p n))
                 \<and> list_all isdigit (c # pre)"
      using True by simp
    then show ?thesis by blast
  next
    case False
    then have "c # cs = [] @ rest (snd (parse_year y (c # cs) p n)) \<and> list_all isdigit []"
      by auto
    then show ?thesis by blast
  qed
qed

lemma spaces_dot_free: "list_all isspace pre \<Longrightarrow> dot_free pre"
  using space_not_dot by (auto simp: dot_free_def list_all_iff)

lemma digits_dot_free: "list_all isdigit pre \<Longrightarrow> dot_free pre"
  using digit_not_dot by (auto simp: dot_free_def list_all_iff)

lemma scan_datetime_dots:
  assumes len: "length str \<le> 126" and sc: "scan_datetime E str d0 = Inr (l, u, d, st')"
  shows "dot_trace str (rest st') u"
proof -
  have tc: "to_char (int (length str)) = int (length str)"
    using len by (simp add: to_char_id)
  define st0 where "st0 = skip_space str 0 (int (length str))"
  define st1 where "st1 = (if cur st0 = CHR ''-'' then adv 1 st0 else st0)"
  obtain y0 st2 where py: "parse_year 0 (rest st1) (pos st1) (sublen st1) = (y0, st2)"
    by (cases "parse_year 0 (rest st1) (pos st1) (sublen st1)")
  define y where "y = (if first_char str = CHR ''-'' then - y0 else y0)"
  define d1 where "d1 = d0\<lparr>dts_year := y\<rparr>"
  note u1 = scan_datetime_unfold [of str st0 st1 y0 st2 y E d0, unfolded tc,
      OF st0_def [symmetric] st1_def py y_def, folded d1_def]
  have i0: "in_step st0" using skip_space_app [OF len st0_def [symmetric]] by simp
  from skip_space_split [of str 0 "int (length str)"] obtain p0 where
    p0: "str = p0 @ rest st0" "dot_free p0" using spaces_dot_free by (auto simp: st0_def)
  have nz1: "sublen st1 \<noteq> 0" using sc u1 by (auto split: if_splits)
  have ne0: "rest st0 \<noteq> []"
  proof
    assume e: "rest st0 = []"
    then have "cur st0 \<noteq> CHR ''-''" by (simp add: cur_def)
    then have "st1 = st0" by (simp add: st1_def)
    then show False using nz1 e i0 by (simp add: in_step_def)
  qed
  then have pos0: "sublen st0 > 0" using i0 by (simp add: in_step_def)
  have i1: "in_step st1" using i0 sep_step(2) [OF i0 pos0] by (simp add: st1_def)
  obtain p1 where p1: "rest st0 = p1 @ rest st1" "dot_free p1"
  proof (cases "cur st0 = CHR ''-''")
    case True
    then have "rest st0 = [cur st0] @ rest st1 \<and> dot_free [cur st0]"
      using sep_split [OF ne0] by (simp add: st1_def)
    then show ?thesis using that by blast
  next
    case False
    then have "rest st0 = [] @ rest st1 \<and> dot_free []" by (simp add: st1_def dot_free_def)
    then show ?thesis using that by blast
  qed
  from parse_year_split [of "rest st1" 0 "pos st1" "sublen st1"] py obtain p2 where
    p2: "rest st1 = p2 @ rest st2" "dot_free p2" using digits_dot_free by auto
  have l1: "length (rest st1) \<le> 126" "sublen st1 = int (length (rest st1))"
    using i1 by (simp_all add: in_step_def)
  have i2: "in_step st2" using parse_year_app [OF l1(1) py [unfolded l1(2)]] by simp
  have pre: "str = (p0 @ p1 @ p2) @ rest st2" "dot_free (p0 @ p1 @ p2)"
    using p0 p1 p2 by (simp_all add: dot_free_def)
  show ?thesis
  proof (cases "sublen st2 = 0")
    case True
    then have "st' = st2" using sc u1 nz1 by auto
    then show ?thesis using pre unfolding dot_trace_def by blast
  next
    case False
    then have pos2: "sublen st2 > 0" using in_step_sublen [OF i2] by simp
    then have ne2: "rest st2 \<noteq> []" using i2 by (auto simp: in_step_def)
    have sep: "cur st2 = CHR ''-''" using sc u1 nz1 False by (auto split: if_splits)
    have sm: "scan_month E (is_leapyear E y) d1 (adv 1 st2) = Inr (l, u, d, st')"
      using sc u1 nz1 False sep by (auto split: if_splits)
    have i3: "in_step (adv 1 st2)" using sep_step(2) [OF i2 pos2] .
    have s: "rest st2 = [cur st2] @ rest (adv 1 st2) \<and> dot_free [cur st2]"
      using sep_split [OF ne2] sep by simp
    have "dot_trace (rest st2) (rest st') u"
      using dot_trace_prefix [of "[cur st2]" "rest (adv 1 st2)" "rest st'" u] s
        scan_month_dots [OF i3 sm] by simp
    then have "dot_trace ((p0 @ p1 @ p2) @ rest st2) (rest st') u"
      using pre(2) by (rule dot_trace_prefix [rotated])
    then show ?thesis using pre(1) by simp
  qed
qed

lemma skip_space_end:
  "sublen (skip_space xs p (int (length xs))) = 0 \<Longrightarrow> length xs \<le> 127 \<Longrightarrow> list_all isspace xs"
proof (induction xs arbitrary: p)
  case Nil
  then show ?case by simp
next
  case (Cons c cs)
  have t: "to_char (int (length cs)) = int (length cs)"
    using Cons.prems(2) by (simp add: to_char_id)
  show ?case
  proof (cases "isspace c")
    case True
    then have "sublen (skip_space cs (Suc p) (int (length cs))) = 0"
      using Cons.prems(1) t by simp
    then show ?thesis using Cons.IH Cons.prems(2) True by simp
  next
    case False
    then show ?thesis using Cons.prems(1) by simp
  qed
qed

lemma trailing_dots:
  assumes "in_step st" "trailing d loc st = Inr res"
  shows "dot_free (rest st)"
proof -
  have l: "length (rest st) \<le> 127" "sublen st = int (length (rest st))"
    using assms(1) by (simp_all add: in_step_def)
  have "sublen (skip_space (rest st) (pos st) (int (length (rest st)))) = 0"
    using assms(2) l(2) by (auto simp: trailing_def Let_def split: if_splits)
  from skip_space_end [OF this l(1)] show ?thesis by (rule spaces_dot_free)
qed

lemma parse_offset_dots:
  assumes "in_step st" "rest st \<noteq> []" "cur st \<noteq> CHR ''.''"
    and "parse_offset E d st = Inr (d', st')"
  shows "\<exists>pre. rest st = pre @ rest st' \<and> dot_free pre" and "in_step st'"
proof -
  have pos: "sublen st > 0" using assms(1,2) by (simp add: in_step_def)
  define sa where "sa = adv 1 st"
  have ia: "in_step sa" using sep_step(2) [OF assms(1) pos] by (simp add: sa_def)
  note s0 = sep_split [OF assms(2,3), folded sa_def]
  from assms(4) obtain oh sb where t: "two_digits sa = Some (oh, sb)"
    by (auto simp: parse_offset_def Let_def sa_def split: option.splits)
  have oh: "\<not> oh \<ge> 24"
    using assms(4) t by (auto simp: parse_offset_def Let_def sa_def split: if_splits)
  have ib: "in_step sb" using two_digits_app(2) [OF ia t] .
  from two_digits_split [OF t] obtain p1 where p1: "rest sa = p1 @ rest sb" "dot_free p1" by blast
  from assms(4) t oh obtain om where om: "offset_minutes sb = Inr (om, st')"
    by (auto simp: parse_offset_def Let_def sa_def split: sum.splits)
  have rest: "(\<exists>p2. rest sb = p2 @ rest st' \<and> dot_free p2) \<and> in_step st'"
  proof (cases "sublen sb > 0")
    case True
    then have neb: "rest sb \<noteq> []" using ib by (auto simp: in_step_def)
    define sc where "sc = (if cur sb = CHR '':'' then adv 1 sb else sb)"
    have ic: "in_step sc" using ib sep_step(2) [OF ib True] by (simp add: sc_def)
    from om True obtain t2: "two_digits sc = Some (om, st')"
      by (auto simp: offset_minutes_def Let_def sc_def split: option.splits if_splits)
    from two_digits_split [OF t2] obtain p3 where p3: "rest sc = p3 @ rest st'" "dot_free p3"
      by blast
    have "\<exists>p2. rest sb = p2 @ rest sc \<and> dot_free p2"
    proof (cases "cur sb = CHR '':''")
      case True
      then have "rest sb = [cur sb] @ rest sc \<and> dot_free [cur sb]"
        using sep_split [OF neb] by (simp add: sc_def)
      then show ?thesis by blast
    next
      case False
      then have "rest sb = [] @ rest sc \<and> dot_free []" by (simp add: sc_def dot_free_def)
      then show ?thesis by blast
    qed
    then obtain p2 where "rest sb = p2 @ rest sc" "dot_free p2" by blast
    then have "rest sb = (p2 @ p3) @ rest st' \<and> dot_free (p2 @ p3)"
      using p3 by (simp add: dot_free_def)
    then show ?thesis using two_digits_app(2) [OF ic t2] by blast
  next
    case False
    then have "st' = sb" using om by (simp add: offset_minutes_def)
    moreover have "rest sb = [] @ rest sb \<and> dot_free []" by (simp add: dot_free_def)
    ultimately show ?thesis using ib by blast
  qed
  then obtain p2 where p2: "rest sb = p2 @ rest st'" "dot_free p2" by blast
  have "rest st = ([cur st] @ p1 @ p2) @ rest st' \<and> dot_free ([cur st] @ p1 @ p2)"
    using s0 p1 p2 by (simp add: dot_free_def)
  then show "\<exists>pre. rest st = pre @ rest st' \<and> dot_free pre" by blast
  show "in_step st'" using rest by simp
qed

lemma parse_timezone_dots:
  assumes "in_step st" "parse_timezone E d st = Inr res"
  shows "dot_free (rest st)"
proof (cases "sublen st = 0")
  case True
  then show ?thesis using assms(1) by (simp add: in_step_def dot_free_def)
next
  case False
  then have pos: "sublen st > 0" using in_step_sublen [OF assms(1)] by simp
  then have ne: "rest st \<noteq> []" using assms(1) by (auto simp: in_step_def)
  have ia: "in_step (adv 1 st)" using sep_step(2) [OF assms(1) pos] .
  show ?thesis
  proof (cases "cur st = CHR ''Z''")
    case True
    have s: "rest st = [cur st] @ rest (adv 1 st) \<and> dot_free [cur st]"
      using sep_split [OF ne] True by simp
    have "dot_free (rest (adv 1 st))"
    proof (cases "sublen st = 1")
      case T1: True
      then have "sublen (adv 1 st) = 0" by (simp add: adv_def to_char_def)
      then show ?thesis using ia by (simp add: in_step_def dot_free_def)
    next
      case F1: False
      then have "trailing d (Some False) (adv 1 st) = Inr res"
        using assms(2) True False by (simp add: parse_timezone_def)
      from trailing_dots [OF ia this] show ?thesis .
    qed
    then have "dot_free ([cur st] @ rest (adv 1 st))" using s by (simp add: dot_free_def)
    then show ?thesis using s by simp
  next
    case nz: False
    show ?thesis
    proof (cases "cur st = CHR ''-'' \<or> cur st = CHR ''+''")
      case True
      then have nd: "cur st \<noteq> CHR ''.''" by auto
      from assms(2) nz True False obtain d' st' where
        po: "parse_offset E d st = Inr (d', st')" and tr: "trailing d' (Some False) st' = Inr res"
        by (auto simp: parse_timezone_def split: sum.splits)
      from parse_offset_dots [OF assms(1) ne nd po] obtain pre where
        pre: "rest st = pre @ rest st'" "dot_free pre" and i: "in_step st'" by blast
      from trailing_dots [OF i tr] show ?thesis using pre by (simp add: dot_free_def)
    next
      case F2: False
      then have "trailing d None st = Inr res"
        using assms(2) nz False by (simp add: parse_timezone_def)
      from trailing_dots [OF assms(1) this] show ?thesis .
    qed
  qed
qed

lemma parsed_fraction_unit:
  assumes len: "length str \<le> 126"
    and ok: "parse_iso_8601_datetime E str unit casting = Inr r" and ns: "\<not> out_special r"
    and dot: "CHR ''.'' \<in> set str"
  shows "out_bestunit r = unit_of_digit_count (length (takeWhile isdigit (fraction_of str)))"
proof -
  have gen: "parse_general E str unit casting = Inr r" using ok ns by (rule general_path)
  from gen obtain l u d st where sc: "scan_datetime E str zero_dts = Inr (l, u, d, st)"
    by (auto simp: parse_general_def split: sum.splits)
  have u: "u = out_bestunit r"
    using gen sc by (auto simp: parse_general_def split: sum.splits label.splits if_splits)
  note tr = scan_datetime_dots [OF len sc]
  have i: "in_step st" using scan_datetime_app(1) [OF len sc] .
  have df: "dot_free (rest st)"
  proof (cases l)
    case Finish
    then show ?thesis using scan_datetime_app(4) [OF len sc] by (simp add: dot_free_def)
  next
    case ParseTimezone
    then obtain res where "parse_timezone E d st = Inr res"
      using gen sc by (auto simp: parse_general_def split: sum.splits)
    from parse_timezone_dots [OF i this] show ?thesis .
  qed
  have "\<not> (\<exists>cs. str = cs @ rest st \<and> dot_free cs)"
    using df dot by (auto simp: dot_free_def)
  then have "u = unit_of_digit_count (length (takeWhile isdigit (fraction_of str)))"
    using tr unfolding dot_trace_def by blast
  then show ?thesis using u by simp
qed

text \<open>
  C3, as the code behaves. For every string of at most 126 bytes with a decimal point
  that the general path accepts, the best unit is decided by the number of digits that
  follow the point: in the group of six where they end, more than three digits give the
  finer unit of the group (microseconds, picoseconds, attoseconds) and at most three the
  coarser (milliseconds, nanoseconds, femtoseconds).
  \<^verbatim>\<open>"2016-01-01T12:30:45.123456789012Z"\<close> parses with the unit picosecond, not local.

  The counter of the bytes left is declared \<^verbatim>\<open>char\<close> and set by \<^verbatim>\<open>sublen = len\<close>, so for
  a longer string it holds the length modulo 256 and the scan ends where it reaches
  zero: \<^verbatim>\<open>"2016-01-01T12:30:45.123456Z"\<close> followed by 252 spaces (279 bytes, counter 23) is
  scanned as \<^verbatim>\<open>"2016-01-01T12:30:45.123"\<close>. Six digits follow the point, which is the
  microsecond by the rule, yet the call returns the millisecond with 123000
  microseconds, and as no zone is read it takes the time for local (and converts it
  with \<^verbatim>\<open>mktime\<close> and \<^verbatim>\<open>gmtime_r\<close>). Followed by two spaces only, the same text gives
  the microsecond with 123456 microseconds, not local.
\<close>

theorem fraction_unit_and_char_counter:
  "(length str \<le> 126 \<and> parse_iso_8601_datetime E str unit casting = Inr r
      \<and> \<not> out_special r \<and> CHR ''.'' \<in> set str \<longrightarrow>
      out_bestunit r = unit_of_digit_count (length (takeWhile isdigit (fraction_of str))))
   \<and> parse_iso_8601_datetime
        (E\<lparr>is_leapyear := gregorian_leap, days_per_month_table := gregorian_days\<rparr>)
        ''2016-01-01T12:30:45.123456789012Z'' None casting =
       Inr \<lparr>out = \<lparr>dts_year = 2016, dts_month = 1, dts_day = 1, dts_hour = 12, dts_min = 30,
                   dts_sec = 45, dts_us = 123456, dts_ps = 789012, dts_as = 0\<rparr>,
            out_local = Some False, out_bestunit = NPY_FR_ps, out_special = False\<rparr>
   \<and> unit_of_digit_count (length (takeWhile isdigit
          (fraction_of (''2016-01-01T12:30:45.123456Z'' @ replicate 252 (CHR '' '')))))
       = NPY_FR_us
   \<and> parse_iso_8601_datetime
        (E\<lparr>is_leapyear := gregorian_leap, days_per_month_table := gregorian_days\<rparr>)
        (''2016-01-01T12:30:45.123456Z'' @ replicate 252 (CHR '' '')) None casting =
       (case local_to_utc
               (E\<lparr>is_leapyear := gregorian_leap, days_per_month_table := gregorian_days\<rparr>)
               \<lparr>dts_year = 2016, dts_month = 1, dts_day = 1, dts_hour = 12, dts_min = 30,
                dts_sec = 45, dts_us = 123000, dts_ps = 0, dts_as = 0\<rparr> of
          Inl e \<Rightarrow> Inl e
        | Inr d \<Rightarrow> Inr \<lparr>out = d, out_local = Some True, out_bestunit = NPY_FR_ms,
                       out_special = False\<rparr>)
   \<and> parse_iso_8601_datetime
        (E\<lparr>is_leapyear := gregorian_leap, days_per_month_table := gregorian_days\<rparr>)
        (''2016-01-01T12:30:45.123456Z'' @ replicate 2 (CHR '' '')) None casting =
       Inr \<lparr>out = \<lparr>dts_year = 2016, dts_month = 1, dts_day = 1, dts_hour = 12, dts_min = 30,
                   dts_sec = 45, dts_us = 123456, dts_ps = 0, dts_as = 0\<rparr>,
            out_local = Some False, out_bestunit = NPY_FR_us, out_special = False\<rparr>"
proof -
  have a: "parse_iso_8601_datetime
        (E\<lparr>is_leapyear := gregorian_leap, days_per_month_table := gregorian_days\<rparr>)
        ''2016-01-01T12:30:45.123456789012Z'' None casting =
       Inr \<lparr>out = \<lparr>dts_year = 2016, dts_month = 1, dts_day = 1, dts_hour = 12, dts_min = 30,
                   dts_sec = 45, dts_us = 123456, dts_ps = 789012, dts_as = 0\<rparr>,
            out_local = Some False, out_bestunit = NPY_FR_ps, out_special = False\<rparr>"
    by (simp add: eval_defs)
  have b: "unit_of_digit_count (length (takeWhile isdigit
          (fraction_of (''2016-01-01T12:30:45.123456Z'' @ replicate 252 (CHR '' '')))))
       = NPY_FR_us"
    by (simp add: fraction_of_def isdigit_def unit_of_digit_count_def)
  have c: "parse_iso_8601_datetime
        (E\<lparr>is_leapyear := gregorian_leap, days_per_month_table := gregorian_days\<rparr>)
        (''2016-01-01T12:30:45.123456Z'' @ replicate 252 (CHR '' '')) None casting =
       (case local_to_utc
               (E\<lparr>is_leapyear := gregorian_leap, days_per_month_table := gregorian_days\<rparr>)
               \<lparr>dts_year = 2016, dts_month = 1, dts_day = 1, dts_hour = 12, dts_min = 30,
                dts_sec = 45, dts_us = 123000, dts_ps = 0, dts_as = 0\<rparr> of
          Inl e \<Rightarrow> Inl e
        | Inr d \<Rightarrow> Inr \<lparr>out = d, out_local = Some True, out_bestunit = NPY_FR_ms,
                       out_special = False\<rparr>)"
    by (simp add: eval_defs split: sum.splits)
  have d: "parse_iso_8601_datetime
        (E\<lparr>is_leapyear := gregorian_leap, days_per_month_table := gregorian_days\<rparr>)
        (''2016-01-01T12:30:45.123456Z'' @ replicate 2 (CHR '' '')) None casting =
       Inr \<lparr>out = \<lparr>dts_year = 2016, dts_month = 1, dts_day = 1, dts_hour = 12, dts_min = 30,
                   dts_sec = 45, dts_us = 123456, dts_ps = 0, dts_as = 0\<rparr>,
            out_local = Some False, out_bestunit = NPY_FR_us, out_special = False\<rparr>"
    by (simp add: eval_defs numeral_2_eq_2)
  show ?thesis
    using a b c d parsed_fraction_unit [of str E unit casting r] by simp
qed

theorem fraction_unit_and_char_counter_witness:
  "parse_iso_8601_datetime example_env ''2016-01-01T12:30:45.1234Z'' None NPY_SAFE_CASTING =
       Inr \<lparr>out = \<lparr>dts_year = 2016, dts_month = 1, dts_day = 1, dts_hour = 12, dts_min = 30,
                   dts_sec = 45, dts_us = 123400, dts_ps = 0, dts_as = 0\<rparr>,
            out_local = Some False, out_bestunit = NPY_FR_us, out_special = False\<rparr>
   \<and> unit_of_digit_count (length (takeWhile isdigit (fraction_of ''2016-01-01T12:30:45.1234Z'')))
       = NPY_FR_us"
proof -
  have p: "parse_iso_8601_datetime example_env ''2016-01-01T12:30:45.1234Z'' None
             NPY_SAFE_CASTING =
       Inr \<lparr>out = \<lparr>dts_year = 2016, dts_month = 1, dts_day = 1, dts_hour = 12, dts_min = 30,
                   dts_sec = 45, dts_us = 123400, dts_ps = 0, dts_as = 0\<rparr>,
            out_local = Some False, out_bestunit = NPY_FR_us, out_special = False\<rparr>"
    by (simp add: eval_defs example_env_def)
  show ?thesis
    using fraction_unit_and_char_counter [of "''2016-01-01T12:30:45.1234Z''" example_env None
        NPY_SAFE_CASTING
        "\<lparr>out = \<lparr>dts_year = 2016, dts_month = 1, dts_day = 1, dts_hour = 12, dts_min = 30,
                   dts_sec = 45, dts_us = 123400, dts_ps = 0, dts_as = 0\<rparr>,
            out_local = Some False, out_bestunit = NPY_FR_us, out_special = False\<rparr>"]
      p
    by simp
qed

end
